theory Spec2Isabelle
  imports Main "HOL-Library.Char_ord" "HOL-Library.List_Lexorder" "HOL-Library.Multiset"
begin

section \<open>Data model\<close>

text \<open>
  The types of \<^verbatim>\<open>deps.dev/util/resolve\<close> as far as the two packages read them.
  A \<^verbatim>\<open>resolve.NodeID\<close> indexes \<^verbatim>\<open>Graph.Nodes\<close>; it is a natural number here, so
  a negative index is excluded by the type. \<^verbatim>\<open>resolve.System\<close> is a small enumeration;
  only its identity matters.
\<close>

type_synonym NodeID = nat

type_synonym System = nat

record PackageKey =
  System :: System
  Name :: string

datatype VersionType = Concrete | Requirement

record VersionKey =
  PackageKey :: PackageKey
  VersionType :: VersionType
  Version :: string

record Node =
  Version :: VersionKey

record Edge =
  From :: NodeID
  To :: NodeID
  Requirement :: string

record Graph =
  Nodes :: "Node list"
  Edges :: "Edge list"

text \<open>
  \<^verbatim>\<open>type DependencyChain struct { Graph *resolve.Graph; Edges []resolve.Edge }\<close>;
  the graph is never mutated, so the pointer is modelled by the graph itself.
\<close>

record DependencyChain =
  Graph :: Graph
  Edges :: "Edge list"

text \<open>
  Outcomes of a Go call. \<open>Ok v\<close> is a normal return with a nil error, \<open>Err e\<close> is a
  return of the zero value together with the error \<open>e\<close> (every error return of the two
  files has that shape), \<open>Panic\<close> is a run-time panic (index or slice bounds out of
  range), which no \<^verbatim>\<open>err != nil\<close> test catches.
\<close>

datatype error = ErrInPlaceImpossible | ErrCollaborator string

datatype 'a result = Panic | Err error | Ok 'a

text \<open>Indexing a slice: \<^verbatim>\<open>xs[i]\<close> panics out of range.\<close>

definition index :: "'a list \<Rightarrow> nat \<Rightarrow> 'a result" where
  "index xs i = (if i < length xs then Ok (xs ! i) else Panic)"

section \<open>dependency\_chain.go\<close>

text \<open>
  \<^verbatim>\<open>edge := dc.Edges[len(dc.Edges)-1]; return dc.Graph.Nodes[edge.To].Version, edge.Requirement\<close>.
  On an empty chain the index is \<open>-1\<close> and the read panics.
\<close>

definition DirectDependency :: "DependencyChain \<Rightarrow> (VersionKey \<times> string) result" where
  "DirectDependency dc =
     (if DependencyChain.Edges dc = [] then Panic
      else let edge = last (DependencyChain.Edges dc) in
        (case index (Nodes (Graph dc)) (To edge) of
           Panic \<Rightarrow> Panic
         | Err e \<Rightarrow> Err e
         | Ok n \<Rightarrow> Ok (Node.Version n, Edge.Requirement edge)))"

text \<open>
  \<^verbatim>\<open>edge := dc.Edges[0]; return dc.Graph.Nodes[edge.To].Version, edge.Requirement\<close>.
\<close>

definition EndDependency :: "DependencyChain \<Rightarrow> (VersionKey \<times> string) result" where
  "EndDependency dc =
     (case DependencyChain.Edges dc of
        [] \<Rightarrow> Panic
      | edge # _ \<Rightarrow>
        (case index (Nodes (Graph dc)) (To edge) of
           Panic \<Rightarrow> Panic
         | Err e \<Rightarrow> Err e
         | Ok n \<Rightarrow> Ok (Node.Version n, Edge.Requirement edge)))"

text \<open>
  The reverse adjacency index of \<^verbatim>\<open>ComputeChains\<close>: the loop over \<^verbatim>\<open>g.Edges\<close> skips
  an edge with \<^verbatim>\<open>e.From == e.To\<close> and appends every other edge to the entry of its
  target. A node without an entry reads as the nil slice.
\<close>

definition addParentEdge :: "(NodeID \<Rightarrow> Edge list) \<Rightarrow> Edge \<Rightarrow> (NodeID \<Rightarrow> Edge list)" where
  "addParentEdge m e = (if From e = To e then m else m(To e := m (To e) @ [e]))"

definition parentEdges :: "Graph \<Rightarrow> NodeID \<Rightarrow> Edge list" where
  "parentEdges g = foldl addParentEdge (\<lambda>_. []) (Graph.Edges g)"

text \<open>
  The inner loop over \<^verbatim>\<open>parentEdges[edge.From]\<close>: a parent edge is appended to a clone
  of the chain unless some edge of the chain already has the parent edge's target
  (\<^verbatim>\<open>slices.ContainsFunc(chain.Edges, func(e) bool { return e.To == pEdge.To })\<close>).
\<close>

definition extendChain :: "Graph \<Rightarrow> DependencyChain \<Rightarrow> Edge \<Rightarrow> DependencyChain list" where
  "extendChain g chain edge =
     map (\<lambda>pEdge. \<lparr>Graph = g, Edges = DependencyChain.Edges chain @ [pEdge]\<rparr>)
       (filter (\<lambda>pEdge. \<not> list_ex (\<lambda>e. To e = To pEdge) (DependencyChain.Edges chain))
          (parentEdges g (From edge)))"

text \<open>
  The weight of a queued chain, for the termination of the work-queue loop: every
  extension adds a target that the chain did not have, and a chain has at most
  \<open>length (Edges g)\<close> extensions.
\<close>

definition chainWeight :: "Graph \<Rightarrow> DependencyChain \<Rightarrow> nat" where
  "chainWeight g chain =
     Suc (length (Graph.Edges g)) ^
       card (To ` set (Graph.Edges g) - To ` set (DependencyChain.Edges chain))"

text \<open>
  \<^verbatim>\<open>for len(toProcess) > 0 { chain := toProcess[0]; toProcess = toProcess[1:]; ... }\<close>
  with the chains completed so far as the third argument.
\<close>

function traverse ::
  "Graph \<Rightarrow> DependencyChain list \<Rightarrow> DependencyChain list \<Rightarrow> DependencyChain list result" where
  "traverse g [] found = Ok found"
| "traverse g (chain # toProcess) found =
     (if DependencyChain.Edges chain = [] then Panic
      else if From (last (DependencyChain.Edges chain)) = 0
        then traverse g toProcess (found @ [chain])
        else traverse g
               (toProcess @ extendChain g chain (last (DependencyChain.Edges chain))) found)"
  by pat_completeness auto

text \<open>
  \<^verbatim>\<open>ComputeChains\<close>: for each requested node the queue starts with one single-edge
  chain per parent edge of the node; \<^verbatim>\<open>allChains[i]\<close> collects the chains that reach
  node 0.
\<close>

fun computeEach :: "Graph \<Rightarrow> NodeID list \<Rightarrow> DependencyChain list list result" where
  "computeEach g [] = Ok []"
| "computeEach g (node # nodes) =
     (case traverse g (map (\<lambda>pEdge. \<lparr>Graph = g, Edges = [pEdge]\<rparr>) (parentEdges g node)) [] of
        Panic \<Rightarrow> Panic
      | Err e \<Rightarrow> Err e
      | Ok found \<Rightarrow>
        (case computeEach g nodes of
           Panic \<Rightarrow> Panic
         | Err e \<Rightarrow> Err e
         | Ok allChains \<Rightarrow> Ok (found # allChains)))"

definition ComputeChains :: "Graph \<Rightarrow> NodeID list \<Rightarrow> DependencyChain list list result" where
  "ComputeChains g nodes = computeEach g nodes"

section \<open>Library functions of the Go runtime\<close>

text \<open>\<^verbatim>\<open>cmp.Compare\<close> on integers and on strings (bytewise lexicographic).\<close>

definition cmpCompare :: "'a::linorder \<Rightarrow> 'a \<Rightarrow> int" where
  "cmpCompare a b = (if a < b then - 1 else if b < a then 1 else 0)"

text \<open>\<^verbatim>\<open>slices.IndexFunc\<close>: the first index whose element satisfies \<open>f\<close>, or \<open>-1\<close>.\<close>

fun IndexFunc :: "'a list \<Rightarrow> ('a \<Rightarrow> bool) \<Rightarrow> int" where
  "IndexFunc [] f = - 1"
| "IndexFunc (x # xs) f =
     (if f x then 0 else (let i = IndexFunc xs f in if i < 0 then - 1 else i + 1))"

text \<open>
  \<^verbatim>\<open>slices.Delete(s, i, j)\<close> removes \<^verbatim>\<open>s[i:j]\<close> and panics when \<^verbatim>\<open>s[i:j]\<close> is not a
  valid slice of \<open>s\<close>; a negative \<open>i\<close> never is.
\<close>

definition Delete :: "'a list \<Rightarrow> int \<Rightarrow> int \<Rightarrow> 'a list result" where
  "Delete s i j =
     (if 0 \<le> i \<and> i \<le> j \<and> j \<le> int (length s)
      then Ok (take (nat i) s @ drop (nat j) s) else Panic)"

text \<open>
  \<^verbatim>\<open>slices.SortFunc\<close> is the standard library's unstable sort. On slices of at most
  twelve elements it runs the insertion sort below (each element moves left while
  \<^verbatim>\<open>cmp(data[j], data[j-1]) < 0\<close>); the proofs use nothing of it but that the result
  is a sorted permutation of the input. \<open>insertLeft\<close> works on the sorted prefix
  in reverse, so that its head is the element next to the one inserted.
\<close>

fun insertLeft :: "('a \<Rightarrow> 'a \<Rightarrow> int) \<Rightarrow> 'a \<Rightarrow> 'a list \<Rightarrow> 'a list" where
  "insertLeft cmp x [] = [x]"
| "insertLeft cmp x (y # ys) = (if cmp x y < 0 then y # insertLeft cmp x ys else x # y # ys)"

definition SortFunc :: "'a list \<Rightarrow> ('a \<Rightarrow> 'a \<Rightarrow> int) \<Rightarrow> 'a list" where
  "SortFunc xs cmp = rev (foldl (\<lambda>prefix x. insertLeft cmp x prefix) [] xs)"

section \<open>Collaborators\<close>

text \<open>
  \<^verbatim>\<open>models.Vulnerability\<close>: the aggregation reads the ID only; the remaining
  fields are read by \<^verbatim>\<open>vulns.IsAffected\<close> alone and are kept as one opaque field.
\<close>

record Vulnerability =
  ID :: string
  Affected :: string

record ResolutionVuln =
  Vulnerability :: Vulnerability
  ProblemChains :: "DependencyChain list"
  DevOnly :: bool

text \<open>\<^verbatim>\<open>lockfile.DependencyPatch\<close>, compared with \<^verbatim>\<open>==\<close> field by field.\<close>

record DependencyPatch =
  Pkg :: PackageKey
  OrigVersion :: string
  NewVersion :: string

record InPlacePatch =
  DependencyPatch :: DependencyPatch
  ResolvedVulns :: "ResolutionVuln list"

record InPlaceResult =
  Patches :: "InPlacePatch list"
  Unfixable :: "ResolutionVuln list"

text \<open>
  \<^verbatim>\<open>RemediationOptions\<close>: the two fields the function reads and the filter method
  \<^verbatim>\<open>opts.MatchVuln\<close>.
\<close>

record RemediationOptions =
  AllowMajor :: bool
  AvoidPkgs :: "string list"
  MatchVuln :: "ResolutionVuln \<Rightarrow> bool"

text \<open>
  \<^verbatim>\<open>dep.Type\<close> through the two queries made of it, \<^verbatim>\<open>IsRegular()\<close> and
  \<^verbatim>\<open>HasAttr(dep.Opt)\<close>, and \<^verbatim>\<open>resolve.RequirementVersion\<close>.
\<close>

record DepType =
  IsRegular :: bool
  HasAttrOpt :: bool

record RequirementVersion =
  VersionKey :: VersionKey
  Type :: DepType

text \<open>
  \<^verbatim>\<open>client.ResolutionClient\<close>: the three calls made, each returning a value or an
  error. The context argument only makes a call fail, which is an error result here.
  \<^verbatim>\<open>Versions\<close> returns \<^verbatim>\<open>resolve.Version\<close> values, of which only the embedded
  \<^verbatim>\<open>VersionKey\<close> is read. \<^verbatim>\<open>FindVulns\<close> returns one list of vulnerabilities per
  node, indexed by node id.
\<close>

record Client =
  FindVulns :: "Graph \<Rightarrow> error + Vulnerability list list"
  Versions :: "PackageKey \<Rightarrow> error + VersionKey list"
  Requirements :: "VersionKey \<Rightarrow> error + RequirementVersion list"

text \<open>
  \<^verbatim>\<open>deps.dev/util/semver\<close>: the operations used, with the constraint type \<open>'c\<close> and
  the set type \<open>'s\<close> left open. \<open>ZeroSet\<close> is \<^verbatim>\<open>semver.Set{}\<close>, which a lookup in
  \<^verbatim>\<open>map[resolve.VersionKey]semver.Set\<close> yields for a missing key.
\<close>

datatype Diff = Same | DiffOther | DiffMajor | DiffMinor | DiffPatch | DiffPrerelease | DiffBuild

record ('c, 's) Semver =
  Compare :: "System \<Rightarrow> string \<Rightarrow> string \<Rightarrow> int"
  Difference :: "System \<Rightarrow> string \<Rightarrow> string \<Rightarrow> error + Diff"
  ParseConstraint :: "System \<Rightarrow> string \<Rightarrow> error + 'c"
  ConstraintSet :: "'c \<Rightarrow> 's"
  ConstraintMatch :: "'c \<Rightarrow> string \<Rightarrow> bool"
  Intersect :: "'s \<Rightarrow> 's \<Rightarrow> error + 's"
  SetMatch :: "'s \<Rightarrow> string \<Rightarrow> error + bool"
  ZeroSet :: 's

text \<open>
  The iteration order of a Go map is unspecified. The places that iterate over a map
  take their order from this record: \<open>rangeVkVulns\<close> for the two loops
  \<^verbatim>\<open>for vk, ... := range res.vkVulns\<close> (the first of them only fills a map keyed by
  \<open>vk\<close>, so its order does not show) and \<open>keysReqVers\<close> for
  \<^verbatim>\<open>maps.Keys(reqVers)\<close>; each is applied to the entries in insertion order.
\<close>

record MapOrder =
  rangeVkVulns ::
    "(VersionKey \<times> ResolutionVuln list) list \<Rightarrow> (VersionKey \<times> ResolutionVuln list) list"
  keysReqVers :: "string list \<Rightarrow> string list"

section \<open>In-place patches\<close>

subsection \<open>findFixedVersion\<close>

text \<open>
  \<^verbatim>\<open>for i := len(vers) - 1; i >= 0; i-- { ... }\<close> over the sorted versions; the
  argument is the sorted list reversed. The predicate is a Go \<^verbatim>\<open>func(VersionKey) bool\<close>:
  \<open>None\<close> when the call panics.
\<close>

fun scanVersions :: "(VersionKey \<Rightarrow> bool option) \<Rightarrow> VersionKey list \<Rightarrow> VersionKey result" where
  "scanVersions satifyFn [] = Err ErrInPlaceImpossible"
| "scanVersions satifyFn (vk # vers) =
     (if VersionType vk = Concrete
      then (case satifyFn vk of
              None \<Rightarrow> Panic
            | Some True \<Rightarrow> Ok vk
            | Some False \<Rightarrow> scanVersions satifyFn vers)
      else scanVersions satifyFn vers)"

text \<open>
  The sort closure is
  \<^verbatim>\<open>func(a, b resolve.Version) int { return a.Semver().Compare(a.Version, b.Version) }\<close>:
  the version system is that of the first argument.
\<close>

definition findFixedVersion ::
  "('c, 's) Semver \<Rightarrow> Client \<Rightarrow> PackageKey \<Rightarrow> (VersionKey \<Rightarrow> bool option) \<Rightarrow> VersionKey result" where
  "findFixedVersion sv cl pk satifyFn =
     (case Versions cl pk of
        Inl err \<Rightarrow> Err err
      | Inr vers \<Rightarrow>
        scanVersions satifyFn
          (rev (SortFunc vers
             (\<lambda>a b. Compare sv (System (PackageKey a)) (VersionKey.Version a) (VersionKey.Version b)))))"

subsection \<open>buildConstraintSet\<close>

text \<open>\<^verbatim>\<open>if req == "latest" { req = "*" }\<close>\<close>

definition latestToAny :: "string \<Rightarrow> string" where
  "latestToAny v = (if v = ''latest'' then ''*'' else v)"

text \<open>
  The loop over \<^verbatim>\<open>requiredVers[1:]\<close>; \<^verbatim>\<open>cSet.Intersect\<close> updates \<^verbatim>\<open>cSet\<close> in
  place or returns an error.
\<close>

fun intersectRest :: "('c, 's) Semver \<Rightarrow> System \<Rightarrow> 's \<Rightarrow> string list \<Rightarrow> 's result" where
  "intersectRest sv sys cSet [] = Ok cSet"
| "intersectRest sv sys cSet (req # reqs) =
     (case ParseConstraint sv sys (latestToAny req) of
        Inl err \<Rightarrow> Err err
      | Inr c \<Rightarrow>
        (case Intersect sv cSet (ConstraintSet sv c) of
           Inl err \<Rightarrow> Err err
         | Inr cSet' \<Rightarrow> intersectRest sv sys cSet' reqs))"

text \<open>\<^verbatim>\<open>v := requiredVers[0]\<close> panics on an empty slice.\<close>

definition buildConstraintSet :: "('c, 's) Semver \<Rightarrow> System \<Rightarrow> string list \<Rightarrow> 's result" where
  "buildConstraintSet sv sys requiredVers =
     (case requiredVers of
        [] \<Rightarrow> Panic
      | v # reqs \<Rightarrow>
        (case ParseConstraint sv sys (latestToAny v) of
           Inl err \<Rightarrow> Err err
         | Inr c \<Rightarrow> intersectRest sv sys (ConstraintSet sv c) reqs))"

subsection \<open>dependenciesSatisfied\<close>

text \<open>The first loop: the regular requirements, and the non-regular ones with \<^verbatim>\<open>dep.Opt\<close>.\<close>

definition regularDeps :: "RequirementVersion list \<Rightarrow> VersionKey list" where
  "regularDeps reqs = map VersionKey (filter (\<lambda>v. IsRegular (Type v)) reqs)"

definition optionalDeps :: "RequirementVersion list \<Rightarrow> VersionKey list" where
  "optionalDeps reqs =
     map VersionKey (filter (\<lambda>v. \<not> IsRegular (Type v) \<and> HasAttrOpt (Type v)) reqs)"

definition sameName :: "VersionKey \<Rightarrow> VersionKey \<Rightarrow> bool" where
  "sameName optVk vk = (Name (PackageKey vk) = Name (PackageKey optVk))"

text \<open>
  The second loop: for an optional dependency that no child has,
  \<^verbatim>\<open>idx := slices.IndexFunc(deps, ...); deps = slices.Delete(deps, idx, idx+1)\<close>.
\<close>

fun removeOptional :: "VersionKey list \<Rightarrow> VersionKey list \<Rightarrow> VersionKey list \<Rightarrow> VersionKey list result" where
  "removeOptional children deps [] = Ok deps"
| "removeOptional children deps (optVk # optDeps) =
     (if \<not> list_ex (sameName optVk) children
      then (let idx = IndexFunc deps (sameName optVk) in
              case Delete deps idx (idx + 1) of
                Panic \<Rightarrow> Panic
              | Err err \<Rightarrow> Err err
              | Ok deps' \<Rightarrow> removeOptional children deps' optDeps)
      else removeOptional children deps optDeps)"

text \<open>
  The third loop: every remaining dependency needs a child of its name whose version
  matches the parsed constraint; a parse error is returned.
\<close>

fun childrenSatisfy ::
  "('c, 's) Semver \<Rightarrow> System \<Rightarrow> VersionKey list \<Rightarrow> VersionKey list \<Rightarrow> bool result" where
  "childrenSatisfy sv sys children [] = Ok True"
| "childrenSatisfy sv sys children (depVK # deps) =
     (case ParseConstraint sv sys (latestToAny (VersionKey.Version depVK)) of
        Inl err \<Rightarrow> Err err
      | Inr constr \<Rightarrow>
        (if list_ex (\<lambda>child. Name (PackageKey child) = Name (PackageKey depVK)
                        \<and> ConstraintMatch sv constr (VersionKey.Version child)) children
         then childrenSatisfy sv sys children deps
         else Ok False))"

definition dependenciesSatisfied ::
  "('c, 's) Semver \<Rightarrow> Client \<Rightarrow> VersionKey \<Rightarrow> VersionKey list \<Rightarrow> bool result" where
  "dependenciesSatisfied sv cl vk children =
     (case Requirements cl vk of
        Inl err \<Rightarrow> Err err
      | Inr reqs \<Rightarrow>
        (case removeOptional children (regularDeps reqs) (optionalDeps reqs) of
           Panic \<Rightarrow> Panic
         | Err err \<Rightarrow> Err err
         | Ok deps \<Rightarrow> childrenSatisfy sv (System (PackageKey vk)) children deps))"

subsection \<open>inPlaceVulnsNodes\<close>

text \<open>
  The three maps of the result. \<open>vkVulns\<close> is iterated later, so it is an association
  list in insertion order; the other two are only looked up, a missing key reading as
  the nil slice.
\<close>

record inPlaceVulnsNodesResult =
  nodeDependencies :: "NodeID \<Rightarrow> VersionKey list"
  vkVulns :: "(VersionKey \<times> ResolutionVuln list) list"
  vkNodes :: "VersionKey \<Rightarrow> NodeID list"

text \<open>
  \<^verbatim>\<open>for _, e := range graph.Edges { if len(nodeVulns[e.From]) > 0 { ... } }\<close>: both
  index expressions can be out of range.
\<close>

fun directDependencies ::
  "Graph \<Rightarrow> Vulnerability list list \<Rightarrow> Edge list \<Rightarrow> (NodeID \<Rightarrow> VersionKey list)
     \<Rightarrow> (NodeID \<Rightarrow> VersionKey list) result" where
  "directDependencies graph nodeVulns [] deps = Ok deps"
| "directDependencies graph nodeVulns (e # es) deps =
     (case index nodeVulns (From e) of
        Panic \<Rightarrow> Panic
      | Err err \<Rightarrow> Err err
      | Ok vulns \<Rightarrow>
        (if length vulns > 0
         then (case index (Nodes graph) (To e) of
                 Panic \<Rightarrow> Panic
               | Err err \<Rightarrow> Err err
               | Ok n \<Rightarrow>
                 directDependencies graph nodeVulns es
                   (deps(From e := deps (From e) @ [Node.Version n])))
         else directDependencies graph nodeVulns es deps))"

text \<open>The node ids with at least one vulnerability, in increasing order.\<close>

definition vulnerableNodes :: "Vulnerability list list \<Rightarrow> NodeID list" where
  "vulnerableNodes nodeVulns = filter (\<lambda>nID. length (nodeVulns ! nID) > 0) [0..<length nodeVulns]"

text \<open>Reading \<^verbatim>\<open>result.vkVulns[vk]\<close>: the nil slice for a missing key.\<close>

definition lookupVulns :: "(VersionKey \<times> ResolutionVuln list) list \<Rightarrow> VersionKey \<Rightarrow> ResolutionVuln list" where
  "lookupVulns m vk = (case map_of m vk of None \<Rightarrow> [] | Some vulns \<Rightarrow> vulns)"

text \<open>Writing \<^verbatim>\<open>result.vkVulns[vk]\<close>: an existing key keeps its place, a new one is added.\<close>

fun storeVulns ::
  "(VersionKey \<times> ResolutionVuln list) list \<Rightarrow> VersionKey \<Rightarrow> ResolutionVuln list
     \<Rightarrow> (VersionKey \<times> ResolutionVuln list) list" where
  "storeVulns [] vk vulns = [(vk, vulns)]"
| "storeVulns ((k, v) # m) vk vulns =
     (if k = vk then (vk, vulns) # m else (k, v) # storeVulns m vk vulns)"

text \<open>
  The body of the loop over \<^verbatim>\<open>nodeVulns[nID]\<close>: a vulnerability whose ID is already
  recorded for the version key gets the chains appended and \<^verbatim>\<open>DevOnly\<close> combined by
  \<^verbatim>\<open>&&\<close>; otherwise the new record is appended.
\<close>

definition mergeVuln :: "ResolutionVuln list \<Rightarrow> ResolutionVuln \<Rightarrow> ResolutionVuln list" where
  "mergeVuln recorded resVuln =
     (let idx = IndexFunc recorded (\<lambda>rv. ID (Vulnerability rv) = ID (Vulnerability resVuln)) in
      if idx \<ge> 0
      then recorded[nat idx := (recorded ! nat idx)
             \<lparr>ProblemChains := ProblemChains (recorded ! nat idx) @ ProblemChains resVuln,
              DevOnly := DevOnly (recorded ! nat idx) \<and> DevOnly resVuln\<rparr>]
      else recorded @ [resVuln])"

fun addNodeVulns ::
  "DependencyChain list \<Rightarrow> VersionKey \<Rightarrow> (VersionKey \<times> ResolutionVuln list) list
     \<Rightarrow> Vulnerability list \<Rightarrow> (VersionKey \<times> ResolutionVuln list) list" where
  "addNodeVulns found vk m [] = m"
| "addNodeVulns found vk m (vuln # vulns) =
     addNodeVulns found vk
       (storeVulns m vk
          (mergeVuln (lookupVulns m vk)
             \<lparr>Vulnerability = vuln, ProblemChains = found, DevOnly = False\<rparr>))
       vulns"

text \<open>
  \<^verbatim>\<open>for i, nID := range nodeIDs { chains := nodeChains[i]; vk := graph.Nodes[nID].Version; ... }\<close>
  over the node ids paired with their chains.
\<close>

fun aggregate ::
  "Graph \<Rightarrow> Vulnerability list list \<Rightarrow> (NodeID \<times> DependencyChain list) list
     \<Rightarrow> inPlaceVulnsNodesResult \<Rightarrow> inPlaceVulnsNodesResult result" where
  "aggregate graph nodeVulns [] result = Ok result"
| "aggregate graph nodeVulns ((nID, found) # rest) result =
     (case index (Nodes graph) nID of
        Panic \<Rightarrow> Panic
      | Err err \<Rightarrow> Err err
      | Ok n \<Rightarrow>
        (case index nodeVulns nID of
           Panic \<Rightarrow> Panic
         | Err err \<Rightarrow> Err err
         | Ok vulns \<Rightarrow>
           (let vk = Node.Version n in
            aggregate graph nodeVulns rest
              (result\<lparr>vkNodes := (vkNodes result)(vk := vkNodes result vk @ [nID]),
                      vkVulns := addNodeVulns found vk (vkVulns result) vulns\<rparr>))))"

definition inPlaceVulnsNodes :: "Client \<Rightarrow> Graph \<Rightarrow> inPlaceVulnsNodesResult result" where
  "inPlaceVulnsNodes cl graph =
     (case FindVulns cl graph of
        Inl err \<Rightarrow> Err err
      | Inr nodeVulns \<Rightarrow>
        (case directDependencies graph nodeVulns (Graph.Edges graph) (\<lambda>_. []) of
           Panic \<Rightarrow> Panic
         | Err err \<Rightarrow> Err err
         | Ok deps \<Rightarrow>
           (let nodeIDs = vulnerableNodes nodeVulns in
            case ComputeChains graph nodeIDs of
              Panic \<Rightarrow> Panic
            | Err err \<Rightarrow> Err err
            | Ok nodeChains \<Rightarrow>
              aggregate graph nodeVulns (zip nodeIDs nodeChains)
                \<lparr>nodeDependencies = deps, vkVulns = [], vkNodes = (\<lambda>_. [])\<rparr>)))"

subsection \<open>ComputeInPlacePatches\<close>

text \<open>
  The set \<^verbatim>\<open>reqVers\<close> of requirement strings of one version key:
  \<^verbatim>\<open>_, req := c.EndDependency(); reqVers[req] = struct{}{}\<close> for every chain of every
  vulnerability.
\<close>

fun chainRequirements :: "DependencyChain list \<Rightarrow> string list \<Rightarrow> string list result" where
  "chainRequirements [] reqVers = Ok reqVers"
| "chainRequirements (c # cs) reqVers =
     (case EndDependency c of
        Panic \<Rightarrow> Panic
      | Err err \<Rightarrow> Err err
      | Ok (_, req) \<Rightarrow>
        chainRequirements cs (if req \<in> set reqVers then reqVers else reqVers @ [req]))"

fun vulnRequirements :: "ResolutionVuln list \<Rightarrow> string list \<Rightarrow> string list result" where
  "vulnRequirements [] reqVers = Ok reqVers"
| "vulnRequirements (vuln # vulns) reqVers =
     (case chainRequirements (ProblemChains vuln) reqVers of
        Panic \<Rightarrow> Panic
      | Err err \<Rightarrow> Err err
      | Ok reqVers' \<Rightarrow> vulnRequirements vulns reqVers')"

text \<open>
  The first loop over \<^verbatim>\<open>res.vkVulns\<close>: an error of \<^verbatim>\<open>buildConstraintSet\<close> leaves the
  version key without an entry (\<^verbatim>\<open>continue\<close>).
\<close>

fun dependentConstraints ::
  "('c, 's) Semver \<Rightarrow> MapOrder \<Rightarrow> (VersionKey \<times> ResolutionVuln list) list
     \<Rightarrow> (VersionKey \<rightharpoonup> 's) \<Rightarrow> (VersionKey \<rightharpoonup> 's) result" where
  "dependentConstraints sv ord [] vkDependentConstraint = Ok vkDependentConstraint"
| "dependentConstraints sv ord ((vk, vulns) # rest) vkDependentConstraint =
     (case vulnRequirements vulns [] of
        Panic \<Rightarrow> Panic
      | Err err \<Rightarrow> Err err
      | Ok reqVers \<Rightarrow>
        (case buildConstraintSet sv (System (PackageKey vk)) (keysReqVers ord reqVers) of
           Panic \<Rightarrow> Panic
         | Err err \<Rightarrow> dependentConstraints sv ord rest vkDependentConstraint
         | Ok cSet \<Rightarrow> dependentConstraints sv ord rest (vkDependentConstraint(vk \<mapsto> cSet))))"

text \<open>
  The loop over \<^verbatim>\<open>res.vkNodes[vk]\<close> inside the predicate: an error or a negative
  answer of \<^verbatim>\<open>dependenciesSatisfied\<close> makes the predicate false; a panic is not caught.
\<close>

fun nodesSatisfied ::
  "('c, 's) Semver \<Rightarrow> Client \<Rightarrow> inPlaceVulnsNodesResult \<Rightarrow> VersionKey \<Rightarrow> NodeID list \<Rightarrow> bool option" where
  "nodesSatisfied sv cl res newVK [] = Some True"
| "nodesSatisfied sv cl res newVK (nID # nIDs) =
     (case dependenciesSatisfied sv cl newVK (nodeDependencies res nID) of
        Panic \<Rightarrow> None
      | Err err \<Rightarrow> Some False
      | Ok ok \<Rightarrow> (if \<not> ok then Some False else nodesSatisfied sv cl res newVK nIDs))"

text \<open>
  The closure passed to \<^verbatim>\<open>findFixedVersion\<close>. \<open>isAffected\<close> is
  \<^verbatim>\<open>vulns.IsAffected\<close> composed with \<^verbatim>\<open>util.VKToPackageDetails\<close>.
\<close>

definition satisfy ::
  "('c, 's) Semver \<Rightarrow> Client \<Rightarrow> (Vulnerability \<Rightarrow> VersionKey \<Rightarrow> bool) \<Rightarrow> RemediationOptions
     \<Rightarrow> inPlaceVulnsNodesResult \<Rightarrow> (VersionKey \<rightharpoonup> 's) \<Rightarrow> VersionKey \<Rightarrow> ResolutionVuln
     \<Rightarrow> VersionKey \<Rightarrow> bool option" where
  "satisfy sv cl isAffected opts res vkDependentConstraint vk vuln newVK =
     (if \<not> AllowMajor opts \<and>
         (case Difference sv (System (PackageKey vk)) (VersionKey.Version vk) (VersionKey.Version newVK) of
            Inl err \<Rightarrow> True
          | Inr diff \<Rightarrow> diff = DiffMajor)
      then Some False
      else
        (case SetMatch sv (case vkDependentConstraint vk of None \<Rightarrow> ZeroSet sv | Some cSet \<Rightarrow> cSet)
                (VersionKey.Version newVK) of
           Inl err \<Rightarrow> Some False
         | Inr ok \<Rightarrow>
           (if \<not> ok then Some False
            else
              (case nodesSatisfied sv cl res newVK (vkNodes res vk) of
                 None \<Rightarrow> None
               | Some ok' \<Rightarrow>
                 (if \<not> ok' then Some False
                  else Some (\<not> isAffected (Vulnerability vuln) newVK))))))"

text \<open>
  \<^verbatim>\<open>idx := slices.IndexFunc(result.Patches, func(ipp) bool { return ipp.DependencyPatch == dp })\<close>
  and the update or append that follows.
\<close>

definition addPatch :: "InPlaceResult \<Rightarrow> DependencyPatch \<Rightarrow> ResolutionVuln \<Rightarrow> InPlaceResult" where
  "addPatch result dp vuln =
     (let idx = IndexFunc (Patches result) (\<lambda>ipp. DependencyPatch ipp = dp) in
      if idx \<ge> 0
      then result\<lparr>Patches := (Patches result)[nat idx := (Patches result ! nat idx)
             \<lparr>ResolvedVulns := ResolvedVulns (Patches result ! nat idx) @ [vuln]\<rparr>]\<rparr>
      else result\<lparr>Patches := Patches result @ [\<lparr>DependencyPatch = dp, ResolvedVulns = [vuln]\<rparr>]\<rparr>)"

text \<open>The loop over the vulnerabilities of one version key.\<close>

fun patchVulns ::
  "('c, 's) Semver \<Rightarrow> Client \<Rightarrow> (Vulnerability \<Rightarrow> VersionKey \<Rightarrow> bool) \<Rightarrow> RemediationOptions
     \<Rightarrow> inPlaceVulnsNodesResult \<Rightarrow> (VersionKey \<rightharpoonup> 's) \<Rightarrow> VersionKey \<Rightarrow> ResolutionVuln list
     \<Rightarrow> InPlaceResult \<Rightarrow> InPlaceResult result" where
  "patchVulns sv cl isAffected opts res vkDependentConstraint vk [] result = Ok result"
| "patchVulns sv cl isAffected opts res vkDependentConstraint vk (vuln # vulnList) result =
     (if \<not> MatchVuln opts vuln
      then patchVulns sv cl isAffected opts res vkDependentConstraint vk vulnList result
      else if Name (PackageKey vk) \<in> set (AvoidPkgs opts)
      then patchVulns sv cl isAffected opts res vkDependentConstraint vk vulnList
             (result\<lparr>Unfixable := Unfixable result @ [vuln]\<rparr>)
      else
        (case findFixedVersion sv cl (PackageKey vk)
                (satisfy sv cl isAffected opts res vkDependentConstraint vk vuln) of
           Panic \<Rightarrow> Panic
         | Err err \<Rightarrow>
           (if err = ErrInPlaceImpossible
            then patchVulns sv cl isAffected opts res vkDependentConstraint vk vulnList
                   (result\<lparr>Unfixable := Unfixable result @ [vuln]\<rparr>)
            else Err err)
         | Ok newVK \<Rightarrow>
           patchVulns sv cl isAffected opts res vkDependentConstraint vk vulnList
             (addPatch result
                \<lparr>Pkg = PackageKey vk, OrigVersion = VersionKey.Version vk,
                 NewVersion = VersionKey.Version newVK\<rparr> vuln)))"

text \<open>The second loop over \<^verbatim>\<open>res.vkVulns\<close>.\<close>

fun patchEntries ::
  "('c, 's) Semver \<Rightarrow> Client \<Rightarrow> (Vulnerability \<Rightarrow> VersionKey \<Rightarrow> bool) \<Rightarrow> RemediationOptions
     \<Rightarrow> inPlaceVulnsNodesResult \<Rightarrow> (VersionKey \<rightharpoonup> 's)
     \<Rightarrow> (VersionKey \<times> ResolutionVuln list) list \<Rightarrow> InPlaceResult \<Rightarrow> InPlaceResult result" where
  "patchEntries sv cl isAffected opts res vkDependentConstraint [] result = Ok result"
| "patchEntries sv cl isAffected opts res vkDependentConstraint ((vk, vulnList) # rest) result =
     (case patchVulns sv cl isAffected opts res vkDependentConstraint vk vulnList result of
        Panic \<Rightarrow> Panic
      | Err err \<Rightarrow> Err err
      | Ok result' \<Rightarrow> patchEntries sv cl isAffected opts res vkDependentConstraint rest result')"

text \<open>The comparison function of the final \<^verbatim>\<open>slices.SortFunc\<close>.\<close>

definition comparePatches :: "InPlacePatch \<Rightarrow> InPlacePatch \<Rightarrow> int" where
  "comparePatches a b =
     (let c = cmpCompare (length (ResolvedVulns a)) (length (ResolvedVulns b)) in
      if c \<noteq> 0 then - c
      else let c = cmpCompare (Name (Pkg (DependencyPatch a))) (Name (Pkg (DependencyPatch b))) in
      if c \<noteq> 0 then c
      else let c = cmpCompare (OrigVersion (DependencyPatch a)) (OrigVersion (DependencyPatch b)) in
      if c \<noteq> 0 then c
      else - cmpCompare (NewVersion (DependencyPatch a)) (NewVersion (DependencyPatch b)))"

definition ComputeInPlacePatches ::
  "('c, 's) Semver \<Rightarrow> MapOrder \<Rightarrow> Client \<Rightarrow> (Vulnerability \<Rightarrow> VersionKey \<Rightarrow> bool) \<Rightarrow> Graph
     \<Rightarrow> RemediationOptions \<Rightarrow> InPlaceResult result" where
  "ComputeInPlacePatches sv ord cl isAffected graph opts =
     (case inPlaceVulnsNodes cl graph of
        Panic \<Rightarrow> Panic
      | Err err \<Rightarrow> Err err
      | Ok res \<Rightarrow>
        (case dependentConstraints sv ord (rangeVkVulns ord (vkVulns res)) Map.empty of
           Panic \<Rightarrow> Panic
         | Err err \<Rightarrow> Err err
         | Ok vkDependentConstraint \<Rightarrow>
           (case patchEntries sv cl isAffected opts res vkDependentConstraint
                   (rangeVkVulns ord (vkVulns res)) \<lparr>Patches = [], Unfixable = []\<rparr> of
              Panic \<Rightarrow> Panic
            | Err err \<Rightarrow> Err err
            | Ok result \<Rightarrow> Ok (result\<lparr>Patches := SortFunc (Patches result) comparePatches\<rparr>))))"

text \<open>
  What the Go caller receives: the pair of \<^verbatim>\<open>InPlaceResult\<close> and error. An error
  comes with \<^verbatim>\<open>InPlaceResult{}\<close>; a panic returns nothing.
\<close>

definition returned :: "InPlaceResult result \<Rightarrow> (InPlaceResult \<times> error option) option" where
  "returned r =
     (case r of
        Panic \<Rightarrow> None
      | Err err \<Rightarrow> Some (\<lparr>Patches = [], Unfixable = []\<rparr>, Some err)
      | Ok result \<Rightarrow> Some (result, None))"

section \<open>Predicates of the statements and proofs\<close>

text \<open>
  What \<^verbatim>\<open>slices.SortFunc\<close> requires of its comparison function (a strict weak
  ordering) on the elements \<open>S\<close> it sorts, in terms of the sign of the result: the
  two orders of the arguments agree, and "not after" is transitive.
\<close>

definition strictWeakOrder :: "'a set \<Rightarrow> ('a \<Rightarrow> 'a \<Rightarrow> int) \<Rightarrow> bool" where
  "strictWeakOrder S cmp =
     ((\<forall>a\<in>S. \<forall>b\<in>S. 0 \<le> cmp a b \<longrightarrow> cmp b a \<le> 0) \<and>
      (\<forall>a\<in>S. \<forall>b\<in>S. \<forall>c\<in>S. cmp a b \<le> 0 \<and> cmp b c \<le> 0 \<longrightarrow> cmp a c \<le> 0))"

text \<open>The order that \<open>comparePatches\<close> decides: \<open>a\<close> is not after \<open>b\<close>.\<close>

definition patchBefore :: "InPlacePatch \<Rightarrow> InPlacePatch \<Rightarrow> bool" where
  "patchBefore a b =
     (length (ResolvedVulns b) < length (ResolvedVulns a)
      \<or> (length (ResolvedVulns a) = length (ResolvedVulns b)
          \<and> (Name (Pkg (DependencyPatch a)) < Name (Pkg (DependencyPatch b))
              \<or> (Name (Pkg (DependencyPatch a)) = Name (Pkg (DependencyPatch b))
                  \<and> (OrigVersion (DependencyPatch a) < OrigVersion (DependencyPatch b)
                      \<or> (OrigVersion (DependencyPatch a) = OrigVersion (DependencyPatch b)
                          \<and> NewVersion (DependencyPatch b) \<le> NewVersion (DependencyPatch a)))))))"

text \<open>No recorded vulnerability is dev-only.\<close>

definition noneDevOnly :: "(VersionKey \<times> ResolutionVuln list) list \<Rightarrow> bool" where
  "noneDevOnly m = (\<forall>(vk, vulns)\<in>set m. \<forall>v\<in>set vulns. \<not> DevOnly v)"

text \<open>
  Where a patch comes from: its package is not avoided, and each vulnerability it
  resolves passed the filter and is recorded, in the given entries, for the package and
  original version of the patch.
\<close>

definition patchProvenance ::
  "RemediationOptions \<Rightarrow> (VersionKey \<times> ResolutionVuln list) list \<Rightarrow> InPlacePatch \<Rightarrow> bool" where
  "patchProvenance opts entries p =
     (Name (Pkg (DependencyPatch p)) \<notin> set (AvoidPkgs opts)
      \<and> (\<forall>x\<in>set (ResolvedVulns p). MatchVuln opts x
            \<and> (\<exists>(vk, vulnList)\<in>set entries. x \<in> set vulnList
                  \<and> PackageKey vk = Pkg (DependencyPatch p)
                  \<and> VersionKey.Version vk = OrigVersion (DependencyPatch p))))"

text \<open>The nodes along a chain, from the vulnerable node up to the source of its last edge.\<close>

definition chainNodes :: "DependencyChain \<Rightarrow> NodeID list" where
  "chainNodes dc =
     (case DependencyChain.Edges dc of
        [] \<Rightarrow> []
      | e # es \<Rightarrow> map To (e # es) @ [From (last (e # es))])"

text \<open>
  Invariant of the work queue for a target node \<open>t\<close>: a queued chain starts at an edge
  into \<open>t\<close>, consists of edges of the graph that are not self-loops, each edge entering
  the source of the one before it, with no source but the last being the root, and with
  pairwise different targets.
\<close>

fun linked :: "Edge list \<Rightarrow> bool" where
  "linked [] = True"
| "linked [e] = True"
| "linked (e # e' # es) = (To e' = From e \<and> From e \<noteq> 0 \<and> linked (e' # es))"

definition chainTo :: "Graph \<Rightarrow> NodeID \<Rightarrow> DependencyChain \<Rightarrow> bool" where
  "chainTo g t c =
     (DependencyChain.Edges c \<noteq> []
      \<and> To (hd (DependencyChain.Edges c)) = t
      \<and> (\<forall>e\<in>set (DependencyChain.Edges c). e \<in> set (Graph.Edges g) \<and> From e \<noteq> To e)
      \<and> linked (DependencyChain.Edges c)
      \<and> distinct (map To (DependencyChain.Edges c)))"

section \<open>Example inputs\<close>

text \<open>
  A small version system for running the functions on concrete inputs. It is an example
  of the parameter \<open>sv\<close>, not the version system of any ecosystem: versions are
  plain release numbers and compare by length first and bytewise second (so that
  \<open>9.0.0\<close> is below \<open>10.0.0\<close>), the major version is the text before the first dot,
  a constraint is \<open>*\<close> or the empty string (any version), a caret range or an exact
  version, every string parses, a set is a list of constraints that must all match, and
  the zero set matches every version.
\<close>

datatype toyConstraint = Any | Exact string | Caret string

definition major :: "string \<Rightarrow> string" where
  "major v = takeWhile (\<lambda>c. c \<noteq> CHR ''.'') v"

definition toyCompare :: "System \<Rightarrow> string \<Rightarrow> string \<Rightarrow> int" where
  "toyCompare sys a b =
     (if length a < length b then - 1 else if length b < length a then 1 else cmpCompare a b)"

definition toyParse :: "System \<Rightarrow> string \<Rightarrow> error + toyConstraint" where
  "toyParse sys s =
     (case s of
        [] \<Rightarrow> Inr Any
      | c # cs \<Rightarrow> if s = ''*'' then Inr Any else if c = CHR ''^'' then Inr (Caret cs) else Inr (Exact s))"

fun toyMatch :: "toyConstraint \<Rightarrow> string \<Rightarrow> bool" where
  "toyMatch Any v = True"
| "toyMatch (Exact s) v = (v = s)"
| "toyMatch (Caret s) v = (major v = major s \<and> toyCompare 0 s v \<le> 0)"

definition toySemver :: "(toyConstraint, toyConstraint list) Semver" where
  "toySemver =
     \<lparr>Compare = toyCompare,
      Difference = (\<lambda>sys a b. Inr (if major a \<noteq> major b then DiffMajor else if a = b then Same else DiffMinor)),
      ParseConstraint = toyParse,
      ConstraintSet = (\<lambda>c. [c]),
      ConstraintMatch = toyMatch,
      Intersect = (\<lambda>cs ds. Inr (cs @ ds)),
      SetMatch = (\<lambda>cs v. Inr (list_all (\<lambda>c. toyMatch c v) cs)),
      ZeroSet = []\<rparr>"

definition insertionOrder :: MapOrder where
  "insertionOrder = \<lparr>rangeVkVulns = (\<lambda>m. m), keysReqVers = (\<lambda>ks. ks)\<rparr>"

definition pkg :: "string \<Rightarrow> PackageKey" where
  "pkg n = \<lparr>System = 1, Name = n\<rparr>"

definition ver :: "string \<Rightarrow> string \<Rightarrow> VersionKey" where
  "ver n v = \<lparr>PackageKey = pkg n, VersionType = Concrete, Version = v\<rparr>"

definition nodeOf :: "string \<Rightarrow> string \<Rightarrow> Node" where
  "nodeOf n v = \<lparr>Version = ver n v\<rparr>"

definition edgeOf :: "NodeID \<Rightarrow> NodeID \<Rightarrow> string \<Rightarrow> Edge" where
  "edgeOf f t r = \<lparr>From = f, To = t, Requirement = r\<rparr>"

text \<open>A vulnerability of the examples affects exactly the version in its second field.\<close>

definition isAff :: "Vulnerability \<Rightarrow> VersionKey \<Rightarrow> bool" where
  "isAff v vk = (VersionKey.Version vk = Affected v)"

text \<open>
  The graph root \<open>\<rightarrow>\<close> A \<open>\<rightarrow>\<close> B, and the one chain from B (node 2) up to the root:
  its first edge enters B, its last edge leaves the root.
\<close>

definition graphA :: Graph where
  "graphA =
     \<lparr>Nodes = [nodeOf ''root'' ''1.0.0'', nodeOf ''A'' ''1.0.0'', nodeOf ''B'' ''1.0.0''],
      Edges = [edgeOf 0 1 ''*'', edgeOf 1 2 ''^1.0.0'']\<rparr>"

definition chainA :: DependencyChain where
  "chainA = \<lparr>Graph = graphA, Edges = [edgeOf 1 2 ''^1.0.0'', edgeOf 0 1 ''*'']\<rparr>"

text \<open>
  Four listed versions of one package, not in order: three releases and one entry that
  is not \<open>Concrete\<close>. The last entry is the lowest release.
\<close>

definition listedVersions :: "VersionKey list" where
  "listedVersions =
     [ver ''B'' ''10.0.0'', ver ''B'' ''11.0.0'',
      \<lparr>PackageKey = pkg ''B'', VersionType = VersionType.Requirement, Version = ''12.0.0''\<rparr>,
      ver ''B'' ''9.0.0'']"

definition listingClient :: Client where
  "listingClient =
     \<lparr>FindVulns = (\<lambda>g. Inr []),
      Versions = (\<lambda>pk. Inr listedVersions),
      Requirements = (\<lambda>vk. Inr [])\<rparr>"

text \<open>
  Two vulnerable packages: C (node 2) directly under the root with one vulnerability,
  B (node 3) under A with two. Every vulnerability affects version \<open>1.0.0\<close>; B has
  the releases \<open>1.0.0\<close>, \<open>1.1.0\<close> and \<open>2.0.0\<close>, C has \<open>1.0.0\<close> and \<open>1.0.1\<close>; no
  release declares a requirement.
\<close>

definition graphBC :: Graph where
  "graphBC =
     \<lparr>Nodes = [nodeOf ''root'' ''1.0.0'', nodeOf ''A'' ''1.0.0'', nodeOf ''C'' ''1.0.0'', nodeOf ''B'' ''1.0.0''],
      Edges = [edgeOf 0 1 ''*'', edgeOf 0 2 ''^1.0.0'', edgeOf 1 3 ''^1.0.0'']\<rparr>"

definition vulnB1 :: Vulnerability where "vulnB1 = \<lparr>ID = ''V-1'', Affected = ''1.0.0''\<rparr>"
definition vulnB2 :: Vulnerability where "vulnB2 = \<lparr>ID = ''V-2'', Affected = ''1.0.0''\<rparr>"
definition vulnC :: Vulnerability where "vulnC = \<lparr>ID = ''V-3'', Affected = ''1.0.0''\<rparr>"

definition versionsBC :: "PackageKey \<Rightarrow> VersionKey list" where
  "versionsBC pk =
     (if Name pk = ''B'' then [ver ''B'' ''2.0.0'', ver ''B'' ''1.0.0'', ver ''B'' ''1.1.0'']
      else [ver ''C'' ''1.0.1'', ver ''C'' ''1.0.0''])"

definition clientBC :: Client where
  "clientBC =
     \<lparr>FindVulns = (\<lambda>g. Inr [[], [], [vulnC], [vulnB1, vulnB2]]),
      Versions = (\<lambda>pk. Inr (versionsBC pk)),
      Requirements = (\<lambda>vk. Inr [])\<rparr>"

definition optsAll :: RemediationOptions where
  "optsAll = \<lparr>AllowMajor = False, AvoidPkgs = [], MatchVuln = (\<lambda>_. True)\<rparr>"

definition chainB :: DependencyChain where
  "chainB = \<lparr>Graph = graphBC, Edges = [edgeOf 1 3 ''^1.0.0'', edgeOf 0 1 ''*'']\<rparr>"

definition chainC :: DependencyChain where
  "chainC = \<lparr>Graph = graphBC, Edges = [edgeOf 0 2 ''^1.0.0'']\<rparr>"

definition vulnOn :: "Vulnerability \<Rightarrow> DependencyChain \<Rightarrow> ResolutionVuln" where
  "vulnOn v c = \<lparr>Vulnerability = v, ProblemChains = [c], DevOnly = False\<rparr>"

definition patchB :: InPlacePatch where
  "patchB = \<lparr>DependencyPatch = \<lparr>Pkg = pkg ''B'', OrigVersion = ''1.0.0'', NewVersion = ''1.1.0''\<rparr>,
             ResolvedVulns = [vulnOn vulnB1 chainB, vulnOn vulnB2 chainB]\<rparr>"

definition patchC :: InPlacePatch where
  "patchC = \<lparr>DependencyPatch = \<lparr>Pkg = pkg ''C'', OrigVersion = ''1.0.0'', NewVersion = ''1.0.1''\<rparr>,
             ResolvedVulns = [vulnOn vulnC chainC]\<rparr>"

text \<open>
  The same version of B twice in one graph (nodes 2 and 3), both reported with the same
  vulnerability: the aggregation merges the two occurrences into one record.
\<close>

definition graphTwice :: Graph where
  "graphTwice =
     \<lparr>Nodes = [nodeOf ''root'' ''1.0.0'', nodeOf ''A'' ''1.0.0'', nodeOf ''B'' ''1.0.0'', nodeOf ''B'' ''1.0.0''],
      Edges = [edgeOf 0 1 ''*'', edgeOf 1 2 ''^1.0.0'', edgeOf 0 3 ''1.0.0'']\<rparr>"

definition clientTwice :: Client where
  "clientTwice =
     \<lparr>FindVulns = (\<lambda>g. Inr [[], [], [vulnB1], [vulnB1]]),
      Versions = (\<lambda>pk. Inr (versionsBC pk)),
      Requirements = (\<lambda>vk. Inr [])\<rparr>"

definition mergedB1 :: ResolutionVuln where
  "mergedB1 =
     \<lparr>Vulnerability = vulnB1,
      ProblemChains = [\<lparr>Graph = graphTwice, Edges = [edgeOf 1 2 ''^1.0.0'', edgeOf 0 1 ''*'']\<rparr>,
                       \<lparr>Graph = graphTwice, Edges = [edgeOf 0 3 ''1.0.0'']\<rparr>],
      DevOnly = False\<rparr>"

text \<open>
  Two versions of B directly under the root, \<open>9.0.0\<close> and \<open>10.0.0\<close>, each with a
  vulnerability of its own and a patch release.
\<close>

definition graphBB :: Graph where
  "graphBB =
     \<lparr>Nodes = [nodeOf ''root'' ''1.0.0'', nodeOf ''B'' ''9.0.0'', nodeOf ''B'' ''10.0.0''],
      Edges = [edgeOf 0 1 ''^9.0.0'', edgeOf 0 2 ''^10.0.0'']\<rparr>"

definition vulnB9 :: Vulnerability where "vulnB9 = \<lparr>ID = ''V-9'', Affected = ''9.0.0''\<rparr>"
definition vulnB10 :: Vulnerability where "vulnB10 = \<lparr>ID = ''V-10'', Affected = ''10.0.0''\<rparr>"

definition clientBB :: Client where
  "clientBB =
     \<lparr>FindVulns = (\<lambda>g. Inr [[], [vulnB9], [vulnB10]]),
      Versions = (\<lambda>pk. Inr [ver ''B'' ''9.0.0'', ver ''B'' ''9.0.1'', ver ''B'' ''10.0.0'', ver ''B'' ''10.0.1'']),
      Requirements = (\<lambda>vk. Inr [])\<rparr>"

definition patchB9 :: InPlacePatch where
  "patchB9 = \<lparr>DependencyPatch = \<lparr>Pkg = pkg ''B'', OrigVersion = ''9.0.0'', NewVersion = ''9.0.1''\<rparr>,
      ResolvedVulns = [vulnOn vulnB9 \<lparr>Graph = graphBB, Edges = [edgeOf 0 1 ''^9.0.0'']\<rparr>]\<rparr>"

definition patchB10 :: InPlacePatch where
  "patchB10 = \<lparr>DependencyPatch = \<lparr>Pkg = pkg ''B'', OrigVersion = ''10.0.0'', NewVersion = ''10.0.1''\<rparr>,
      ResolvedVulns = [vulnOn vulnB10 \<lparr>Graph = graphBB, Edges = [edgeOf 0 2 ''^10.0.0'']\<rparr>]\<rparr>"

text \<open>Options that avoid B and filter out the vulnerability \<open>V-2\<close>.\<close>

definition optsAvoidB :: RemediationOptions where
  "optsAvoidB =
     \<lparr>AllowMajor = False, AvoidPkgs = [''B''],
      MatchVuln = (\<lambda>v. ID (Vulnerability v) \<noteq> ''V-2'')\<rparr>"

text \<open>
  Two clients for the graph with B and C whose calls fail: for the first the
  requirements fetch fails for every version; for the second the version listing and
  the requirements fetch fail for B and succeed for C.
\<close>

definition clientNoRequirements :: Client where
  "clientNoRequirements =
     \<lparr>FindVulns = (\<lambda>g. Inr [[], [], [vulnC], [vulnB1, vulnB2]]),
      Versions = (\<lambda>pk. Inr (versionsBC pk)),
      Requirements = (\<lambda>vk. Inl (ErrCollaborator ''requirements unavailable''))\<rparr>"

definition clientNoVersions :: Client where
  "clientNoVersions =
     \<lparr>FindVulns = (\<lambda>g. Inr [[], [], [vulnC], [vulnB1, vulnB2]]),
      Versions = (\<lambda>pk. if Name pk = ''B'' then Inl (ErrCollaborator ''versions unavailable'')
                        else Inr (versionsBC pk)),
      Requirements = (\<lambda>vk. if Name (PackageKey vk) = ''B''
                            then Inl (ErrCollaborator ''requirements unavailable'')
                            else Inr [])\<rparr>"

text \<open>A cycle through the root: A depends on the root and the root on A.\<close>

definition graphCycle :: Graph where
  "graphCycle =
     \<lparr>Nodes = [nodeOf ''root'' ''1.0.0'', nodeOf ''A'' ''1.0.0''],
      Edges = [edgeOf 1 0 ''*'', edgeOf 0 1 ''*'']\<rparr>"

definition chainCycle :: DependencyChain where
  "chainCycle = \<lparr>Graph = graphCycle, Edges = [edgeOf 1 0 ''*'', edgeOf 0 1 ''*'']\<rparr>"

text \<open>
  A client whose releases declare one optional requirement, on C, and no regular one.
\<close>

definition optionalC :: RequirementVersion where
  "optionalC =
     \<lparr>VersionKey = \<lparr>PackageKey = pkg ''C'', VersionType = VersionType.Requirement,
                     Version = ''^2.0.0''\<rparr>,
      Type = \<lparr>IsRegular = False, HasAttrOpt = True\<rparr>\<rparr>"

definition clientOptional :: Client where
  "clientOptional =
     \<lparr>FindVulns = (\<lambda>g. Inr [[], [], [vulnB1]]),
      Versions = (\<lambda>pk. Inr (versionsBC pk)),
      Requirements = (\<lambda>vk. Inr [optionalC])\<rparr>"

text \<open>A graph of the root alone, reported vulnerable.\<close>

definition graphRoot :: Graph where
  "graphRoot = \<lparr>Nodes = [nodeOf ''root'' ''1.0.0''], Edges = []\<rparr>"

definition clientRoot :: Client where
  "clientRoot =
     \<lparr>FindVulns = (\<lambda>g. Inr [[vulnB1]]),
      Versions = (\<lambda>pk. Inr [ver ''root'' ''1.0.0'', ver ''root'' ''1.0.1'']),
      Requirements = (\<lambda>vk. Inr [])\<rparr>"

section \<open>Termination of the chain traversal\<close>

lemma foldl_addParentEdge:
  "foldl addParentEdge m es n = m n @ filter (\<lambda>e. To e = n \<and> From e \<noteq> To e) es"
  by (induction es arbitrary: m) (auto simp: addParentEdge_def)

lemma parentEdges_filter:
  "parentEdges g n = filter (\<lambda>e. To e = n \<and> From e \<noteq> To e) (Graph.Edges g)"
  by (simp add: parentEdges_def foldl_addParentEdge)

lemma chainWeight_pos: "0 < chainWeight g chain"
  by (simp add: chainWeight_def)

lemma chainWeight_extend:
  assumes "c \<in> set (extendChain g chain edge)"
  shows "Suc (length (Graph.Edges g)) * chainWeight g c = chainWeight g chain"
proof -
  let ?U = "To ` set (Graph.Edges g)"
  let ?T = "To ` set (DependencyChain.Edges chain)"
  from assms have "\<exists>p. p \<in> set (Graph.Edges g) \<and> To p \<notin> ?T
      \<and> DependencyChain.Edges c = DependencyChain.Edges chain @ [p]"
    by (auto simp: extendChain_def parentEdges_filter list_ex_iff)
  then obtain p where p: "p \<in> set (Graph.Edges g)" "To p \<notin> ?T"
    and c: "DependencyChain.Edges c = DependencyChain.Edges chain @ [p]"
    by blast
  have "To ` set (DependencyChain.Edges c) = insert (To p) ?T"
    by (simp add: c)
  then have eq: "?U - To ` set (DependencyChain.Edges c) = (?U - ?T) - {To p}"
    by auto
  have mem: "To p \<in> ?U - ?T"
    using p by auto
  have "card (?U - ?T) = Suc (card ((?U - ?T) - {To p}))"
    by (rule card.remove [OF _ mem]) simp
  then show ?thesis
    by (simp add: chainWeight_def eq)
qed

lemma length_extendChain: "length (extendChain g chain edge) \<le> length (Graph.Edges g)"
  by (simp add: extendChain_def parentEdges_filter le_trans [OF length_filter_le length_filter_le])

lemma sum_list_const_bound:
  assumes "\<And>x. x \<in> set xs \<Longrightarrow> f x = (k::nat)"
  shows "sum_list (map f xs) = length xs * k"
  using assms by (induction xs) auto

lemma extendChain_weight:
  "sum_list (map (chainWeight g) (extendChain g chain edge)) < chainWeight g chain"
proof (cases "extendChain g chain edge = []")
  case True
  then show ?thesis by (simp add: chainWeight_pos)
next
  case False
  then have "\<exists>c. c \<in> set (extendChain g chain edge)"
    by (cases "extendChain g chain edge") auto
  then obtain c where c: "c \<in> set (extendChain g chain edge)"
    by blast
  let ?n = "length (Graph.Edges g)"
  let ?w = "chainWeight g c"
  have all: "\<And>x. x \<in> set (extendChain g chain edge) \<Longrightarrow> chainWeight g x = ?w"
  proof -
    fix x assume x: "x \<in> set (extendChain g chain edge)"
    have "Suc ?n * chainWeight g x = Suc ?n * ?w"
      by (simp only: chainWeight_extend [OF x] chainWeight_extend [OF c])
    then show "chainWeight g x = ?w"
      by (simp only: mult_cancel1) simp
  qed
  have "sum_list (map (chainWeight g) (extendChain g chain edge))
          = length (extendChain g chain edge) * ?w"
    by (rule sum_list_const_bound) (rule all)
  also have "\<dots> \<le> ?n * ?w"
    by (rule mult_le_mono1 [OF length_extendChain])
  also have "\<dots> < Suc ?n * ?w"
    using chainWeight_pos [of g c] by simp
  also have "\<dots> = chainWeight g chain"
    by (rule chainWeight_extend [OF c])
  finally show ?thesis .
qed

termination traverse
proof (relation "measure (\<lambda>(g, toProcess, found). sum_list (map (chainWeight g) toProcess))")
  show "wf (measure (\<lambda>(g, toProcess, found). sum_list (map (chainWeight g) toProcess)))"
    by simp
next
  fix g :: Graph and chain :: DependencyChain and toProcess found :: "DependencyChain list"
  show "((g, toProcess, found @ [chain]), (g, chain # toProcess, found))
          \<in> measure (\<lambda>(g, toProcess, found). sum_list (map (chainWeight g) toProcess))"
    by (simp add: chainWeight_pos)
next
  fix g :: Graph and chain :: DependencyChain and toProcess found :: "DependencyChain list"
  show "((g, toProcess @ extendChain g chain (last (DependencyChain.Edges chain)), found),
          (g, chain # toProcess, found))
          \<in> measure (\<lambda>(g, toProcess, found). sum_list (map (chainWeight g) toProcess))"
    using extendChain_weight [of g chain "last (DependencyChain.Edges chain)"] by simp
qed

section \<open>The sort\<close>

lemma set_insertLeft: "set (insertLeft cmp x ys) = insert x (set ys)"
  by (induction ys) auto

lemma mset_insertLeft: "mset (insertLeft cmp x ys) = add_mset x (mset ys)"
  by (induction ys) auto

lemma sorted_insertLeft:
  assumes "strictWeakOrder S cmp" and "x \<in> S" and "set ys \<subseteq> S"
    and "sorted_wrt (\<lambda>a b. cmp b a \<le> 0) ys"
  shows "sorted_wrt (\<lambda>a b. cmp b a \<le> 0) (insertLeft cmp x ys)"
  using assms(3,4)
proof (induction ys)
  case Nil
  then show ?case by simp
next
  case (Cons y ys)
  show ?case
  proof (cases "cmp x y < 0")
    case True
    with Cons show ?thesis by (auto simp: set_insertLeft)
  next
    case False
    then have yx: "cmp y x \<le> 0"
      using assms(1,2) Cons.prems(1) by (simp add: strictWeakOrder_def)
    have "\<forall>z\<in>set ys. cmp z x \<le> 0"
    proof
      fix z assume z: "z \<in> set ys"
      with Cons.prems have "cmp z y \<le> 0" by simp
      moreover have "z \<in> S" "y \<in> S" using z Cons.prems(1) by auto
      ultimately show "cmp z x \<le> 0"
        using yx assms(1,2) unfolding strictWeakOrder_def by blast
    qed
    with False yx Cons.prems show ?thesis by simp
  qed
qed

lemma mset_foldl_insertLeft:
  "mset (foldl (\<lambda>prefix x. insertLeft cmp x prefix) acc xs) = mset acc + mset xs"
  by (induction xs arbitrary: acc) (simp_all add: mset_insertLeft)

lemma sorted_foldl_insertLeft:
  assumes "strictWeakOrder S cmp"
  shows "set xs \<subseteq> S \<Longrightarrow> set acc \<subseteq> S \<Longrightarrow> sorted_wrt (\<lambda>a b. cmp b a \<le> 0) acc \<Longrightarrow>
         sorted_wrt (\<lambda>a b. cmp b a \<le> 0) (foldl (\<lambda>prefix x. insertLeft cmp x prefix) acc xs)"
proof (induction xs arbitrary: acc)
  case Nil
  then show ?case by simp
next
  case (Cons x xs)
  have "sorted_wrt (\<lambda>a b. cmp b a \<le> 0) (insertLeft cmp x acc)"
    using sorted_insertLeft [OF assms, of x acc] Cons.prems by simp
  moreover have "set (insertLeft cmp x acc) \<subseteq> S"
    using Cons.prems by (simp add: set_insertLeft)
  ultimately show ?case
    using Cons.IH [of "insertLeft cmp x acc"] Cons.prems(1) by simp
qed

lemma mset_SortFunc: "mset (SortFunc xs cmp) = mset xs"
  by (simp add: SortFunc_def mset_foldl_insertLeft)

lemma set_SortFunc: "set (SortFunc xs cmp) = set xs"
  using mset_SortFunc [of xs cmp] by (metis set_mset_mset)

lemma sorted_SortFunc:
  assumes "strictWeakOrder S cmp" and "set xs \<subseteq> S"
  shows "sorted_wrt (\<lambda>a b. cmp a b \<le> 0) (SortFunc xs cmp)"
proof -
  have "sorted_wrt (\<lambda>a b. cmp b a \<le> 0) (foldl (\<lambda>prefix x. insertLeft cmp x prefix) [] xs)"
    by (rule sorted_foldl_insertLeft [OF assms]) simp_all
  then show ?thesis
    by (simp add: SortFunc_def sorted_wrt_rev)
qed

section \<open>findFixedVersion returns the highest satisfying version\<close>

lemma scanVersions_none:
  "\<forall>v\<in>set vers. \<not> (VersionType v = Concrete \<and> p v) \<Longrightarrow>
   scanVersions (\<lambda>vk. Some (p vk)) vers = Err ErrInPlaceImpossible"
  by (induction vers) auto

lemma scanVersions_first:
  assumes "\<exists>v\<in>set vers. VersionType v = Concrete \<and> p v"
  shows "\<exists>pre vk post. vers = pre @ vk # post \<and> scanVersions (\<lambda>vk. Some (p vk)) vers = Ok vk
           \<and> VersionType vk = Concrete \<and> p vk
           \<and> (\<forall>v\<in>set pre. \<not> (VersionType v = Concrete \<and> p v))"
  using assms
proof (induction vers)
  case Nil
  then show ?case by simp
next
  case (Cons a vers)
  show ?case
  proof (cases "VersionType a = Concrete \<and> p a")
    case True
    then have "a # vers = [] @ a # vers \<and> scanVersions (\<lambda>vk. Some (p vk)) (a # vers) = Ok a
           \<and> VersionType a = Concrete \<and> p a
           \<and> (\<forall>v\<in>set []. \<not> (VersionType v = Concrete \<and> p v))"
      by simp
    then show ?thesis by blast
  next
    case False
    with Cons.prems have "\<exists>v\<in>set vers. VersionType v = Concrete \<and> p v" by auto
    from Cons.IH [OF this] obtain pre vk post where
      h: "vers = pre @ vk # post" "scanVersions (\<lambda>vk. Some (p vk)) vers = Ok vk"
         "VersionType vk = Concrete" "p vk" "\<forall>v\<in>set pre. \<not> (VersionType v = Concrete \<and> p v)"
      by blast
    have "a # vers = (a # pre) @ vk # post \<and> scanVersions (\<lambda>vk. Some (p vk)) (a # vers) = Ok vk
           \<and> VersionType vk = Concrete \<and> p vk
           \<and> (\<forall>v\<in>set (a # pre). \<not> (VersionType v = Concrete \<and> p v))"
      using h False by auto
    then show ?thesis by blast
  qed
qed

lemma strictWeakOrder_refl: "strictWeakOrder S cmp \<Longrightarrow> a \<in> S \<Longrightarrow> cmp a a \<le> 0"
  unfolding strictWeakOrder_def by (metis linorder_le_cases)

lemma strictWeakOrder_toySemver:
  "strictWeakOrder S
     (\<lambda>a b. Compare toySemver (System (PackageKey a)) (VersionKey.Version a) (VersionKey.Version b))"
  unfolding strictWeakOrder_def toySemver_def toyCompare_def cmpCompare_def
  by (auto split: if_splits)

text \<open>
  Claim C3. When the client lists the versions \<open>vers\<close> of the package and
  \<open>Compare\<close>, taken in the version system of its first argument, is a strict weak
  ordering on them, then for every predicate \<open>p\<close>: if some listed version is
  \<open>Concrete\<close> and satisfies \<open>p\<close>, \<open>findFixedVersion\<close> returns a listed
  \<open>Concrete\<close> version \<open>vk\<close> that satisfies \<open>p\<close> such that every listed
  \<open>Concrete\<close> version \<open>v\<close> satisfying \<open>p\<close> has \<open>Compare\<close> of \<open>v\<close> and \<open>vk\<close>
  at most 0 in the system of \<open>v\<close>; if none does, it returns the error
  \<open>ErrInPlaceImpossible\<close>.
\<close>

theorem findFixedVersion_highest:
  assumes listing: "Versions cl pk = Inr vers"
    and order: "strictWeakOrder (set vers)
      (\<lambda>a b. Compare sv (System (PackageKey a)) (VersionKey.Version a) (VersionKey.Version b))"
  shows "((\<exists>v\<in>set vers. VersionType v = Concrete \<and> p v) \<longrightarrow>
            (\<exists>vk. findFixedVersion sv cl pk (\<lambda>vk. Some (p vk)) = Ok vk
               \<and> vk \<in> set vers \<and> VersionType vk = Concrete \<and> p vk
               \<and> (\<forall>v\<in>set vers. VersionType v = Concrete \<and> p v \<longrightarrow>
                     Compare sv (System (PackageKey v)) (VersionKey.Version v) (VersionKey.Version vk) \<le> 0)))
       \<and> ((\<forall>v\<in>set vers. \<not> (VersionType v = Concrete \<and> p v)) \<longrightarrow>
            findFixedVersion sv cl pk (\<lambda>vk. Some (p vk)) = Err ErrInPlaceImpossible)"
proof (intro conjI impI)
  let ?cmp = "\<lambda>a b. Compare sv (System (PackageKey a)) (VersionKey.Version a) (VersionKey.Version b)"
  let ?desc = "rev (SortFunc vers ?cmp)"
  have set_desc: "set ?desc = set vers"
    by (simp add: set_SortFunc)
  have "sorted_wrt (\<lambda>a b. ?cmp a b \<le> 0) (SortFunc vers ?cmp)"
    by (rule sorted_SortFunc [OF order]) simp
  then have sorted_desc: "sorted_wrt (\<lambda>a b. ?cmp b a \<le> 0) ?desc"
    by (simp add: sorted_wrt_rev)
  {
    assume "\<exists>v\<in>set vers. VersionType v = Concrete \<and> p v"
    then have "\<exists>v\<in>set ?desc. VersionType v = Concrete \<and> p v"
      by (simp only: set_desc)
    from scanVersions_first [OF this] obtain pre vk post where
      h: "?desc = pre @ vk # post" "scanVersions (\<lambda>vk. Some (p vk)) ?desc = Ok vk"
         "VersionType vk = Concrete" "p vk" "\<forall>v\<in>set pre. \<not> (VersionType v = Concrete \<and> p v)"
      by blast
    have res: "findFixedVersion sv cl pk (\<lambda>vk. Some (p vk)) = Ok vk"
      by (simp add: findFixedVersion_def listing h(2))
    have mem: "vk \<in> set vers"
      using h(1) set_desc by (metis in_set_conv_decomp)
    have high: "\<forall>v\<in>set vers. VersionType v = Concrete \<and> p v \<longrightarrow> ?cmp v vk \<le> 0"
    proof (intro ballI impI)
      fix v assume v: "v \<in> set vers" "VersionType v = Concrete \<and> p v"
      then have "v \<in> set (pre @ vk # post)"
        using set_desc h(1) by simp
      with v(2) h(5) have "v = vk \<or> v \<in> set post" by auto
      moreover have "\<forall>w\<in>set post. ?cmp w vk \<le> 0"
        using sorted_desc unfolding h(1) by (simp add: sorted_wrt_append)
      moreover have "?cmp vk vk \<le> 0"
        by (rule strictWeakOrder_refl [OF order mem])
      ultimately show "?cmp v vk \<le> 0"
        by auto
    qed
    show "\<exists>vk. findFixedVersion sv cl pk (\<lambda>vk. Some (p vk)) = Ok vk
               \<and> vk \<in> set vers \<and> VersionType vk = Concrete \<and> p vk
               \<and> (\<forall>v\<in>set vers. VersionType v = Concrete \<and> p v \<longrightarrow>
                     Compare sv (System (PackageKey v)) (VersionKey.Version v) (VersionKey.Version vk) \<le> 0)"
      using res mem h(3,4) high by blast
  }
  {
    assume "\<forall>v\<in>set vers. \<not> (VersionType v = Concrete \<and> p v)"
    then have "\<forall>v\<in>set ?desc. \<not> (VersionType v = Concrete \<and> p v)"
      by (simp only: set_desc)
    from scanVersions_none [OF this]
    show "findFixedVersion sv cl pk (\<lambda>vk. Some (p vk)) = Err ErrInPlaceImpossible"
      by (simp add: findFixedVersion_def listing)
  }
qed

text \<open>
  An instance: the listing is \<open>10.0.0\<close>, \<open>11.0.0\<close>, the non-concrete \<open>12.0.0\<close> and
  \<open>9.0.0\<close>, in that order, and the predicate rejects \<open>11.0.0\<close>. The answer is
  \<open>10.0.0\<close>; a scan of the listing as it came, from its end, would answer \<open>9.0.0\<close>,
  which is also the greater of the two as a string. With a predicate that rejects every
  version, the answer is the impossible-fix error.
\<close>

theorem findFixedVersion_highest_witness:
  "Versions listingClient (pkg ''B'') = Inr listedVersions
   \<and> findFixedVersion toySemver listingClient (pkg ''B'')
        (\<lambda>vk. Some (VersionKey.Version vk \<noteq> ''11.0.0'')) = Ok (ver ''B'' ''10.0.0'')
   \<and> scanVersions (\<lambda>vk. Some (VersionKey.Version vk \<noteq> ''11.0.0'')) (rev listedVersions)
        = Ok (ver ''B'' ''9.0.0'')
   \<and> ''10.0.0'' < ''9.0.0''
   \<and> Compare toySemver (System (pkg ''B'')) ''9.0.0'' ''10.0.0'' < 0
   \<and> (\<exists>vk. findFixedVersion toySemver listingClient (pkg ''B'')
               (\<lambda>vk. Some (VersionKey.Version vk \<noteq> ''11.0.0'')) = Ok vk
          \<and> vk \<in> set listedVersions
          \<and> Compare toySemver (System (PackageKey (ver ''B'' ''9.0.0'')))
               (VersionKey.Version (ver ''B'' ''9.0.0'')) (VersionKey.Version vk) \<le> 0)
   \<and> findFixedVersion toySemver listingClient (pkg ''B'') (\<lambda>vk. Some False)
        = Err ErrInPlaceImpossible"
proof -
  let ?p = "\<lambda>vk. VersionKey.Version vk \<noteq> ''11.0.0''"
  have listing: "Versions listingClient (pkg ''B'') = Inr listedVersions"
    by (simp add: listingClient_def)
  have some: "\<exists>v\<in>set listedVersions. VersionType v = Concrete \<and> ?p v"
    by (simp add: listedVersions_def ver_def)
  have nine: "ver ''B'' ''9.0.0'' \<in> set listedVersions"
       "VersionType (ver ''B'' ''9.0.0'') = Concrete \<and> ?p (ver ''B'' ''9.0.0'')"
    by (simp_all add: listedVersions_def ver_def)
  from findFixedVersion_highest [OF listing strictWeakOrder_toySemver, of ?p] some
  obtain vk where vk: "findFixedVersion toySemver listingClient (pkg ''B'') (\<lambda>vk. Some (?p vk)) = Ok vk"
      "vk \<in> set listedVersions"
      "\<forall>v\<in>set listedVersions. VersionType v = Concrete \<and> ?p v \<longrightarrow>
         Compare toySemver (System (PackageKey v)) (VersionKey.Version v) (VersionKey.Version vk) \<le> 0"
    by blast
  from vk(3) nine have le: "Compare toySemver (System (PackageKey (ver ''B'' ''9.0.0'')))
               (VersionKey.Version (ver ''B'' ''9.0.0'')) (VersionKey.Version vk) \<le> 0"
    by blast
  have run: "findFixedVersion toySemver listingClient (pkg ''B'') (\<lambda>vk. Some (?p vk))
               = Ok (ver ''B'' ''10.0.0'')"
    by code_simp
  have unsorted: "scanVersions (\<lambda>vk. Some (?p vk)) (rev listedVersions) = Ok (ver ''B'' ''9.0.0'')"
    by code_simp
  have lex: "''10.0.0'' < ''9.0.0''"
    by simp
  have sem: "Compare toySemver (System (pkg ''B'')) ''9.0.0'' ''10.0.0'' < 0"
    by code_simp
  have none: "findFixedVersion toySemver listingClient (pkg ''B'') (\<lambda>vk. Some False)
                = Err ErrInPlaceImpossible"
    using findFixedVersion_highest [OF listing strictWeakOrder_toySemver, of "\<lambda>vk. False"]
    by simp
  from listing run unsorted lex sem vk(1,2) le none show ?thesis
    by blast
qed

section \<open>The two views of a dependency chain\<close>

text \<open>
  Claim C2, as stated, fails. On the chain that \<open>ComputeChains\<close> produces for B in
  root \<open>\<rightarrow>\<close> A \<open>\<rightarrow>\<close> B, whose edge at index 0 enters B, \<open>DirectDependency\<close> returns
  A with the root's requirement (the last edge) and \<open>EndDependency\<close> returns B with
  A's requirement (the edge at index 0): the two are the other way round.
\<close>

theorem dependency_views_counterexample:
  "ComputeChains graphA [2] = Ok [[chainA]]
   \<and> DependencyChain.Edges chainA = [edgeOf 1 2 ''^1.0.0'', edgeOf 0 1 ''*'']
   \<and> DirectDependency chainA = Ok (ver ''A'' ''1.0.0'', ''*'')
   \<and> DirectDependency chainA \<noteq> Ok (ver ''B'' ''1.0.0'', ''^1.0.0'')
   \<and> EndDependency chainA = Ok (ver ''B'' ''1.0.0'', ''^1.0.0'')
   \<and> EndDependency chainA \<noteq> Ok (ver ''A'' ''1.0.0'', ''*'')"
  by code_simp

text \<open>
  Claim C2, amended. For every chain with at least one edge whose first and last edges
  point at nodes of the graph, \<open>DirectDependency\<close> returns the version key of the
  target of the last edge (the edge adjacent to the root) with that edge's requirement,
  and \<open>EndDependency\<close> returns the version key of the target of the edge at index 0
  (the edge nearest the vulnerable node) with that edge's requirement.
\<close>

theorem dependency_views:
  assumes "DependencyChain.Edges dc = e # es"
    and "To e < length (Nodes (Graph dc))"
    and "To (last (e # es)) < length (Nodes (Graph dc))"
  shows "DirectDependency dc =
           Ok (Node.Version (Nodes (Graph dc) ! To (last (e # es))), Edge.Requirement (last (e # es)))
       \<and> EndDependency dc = Ok (Node.Version (Nodes (Graph dc) ! To e), Edge.Requirement e)"
  using assms by (simp add: DirectDependency_def EndDependency_def index_def Let_def)

theorem dependency_views_witness:
  "DirectDependency chainA = Ok (ver ''A'' ''1.0.0'', ''*'')
   \<and> EndDependency chainA = Ok (ver ''B'' ''1.0.0'', ''^1.0.0'')"
proof -
  have edges: "DependencyChain.Edges chainA = edgeOf 1 2 ''^1.0.0'' # [edgeOf 0 1 ''*'']"
    by (simp add: chainA_def)
  have first: "To (edgeOf 1 2 ''^1.0.0'') < length (Nodes (Graph chainA))"
    by (simp add: chainA_def graphA_def edgeOf_def)
  have lst: "To (last (edgeOf 1 2 ''^1.0.0'' # [edgeOf 0 1 ''*''])) < length (Nodes (Graph chainA))"
    by (simp add: chainA_def graphA_def edgeOf_def)
  from dependency_views [OF edges first lst] show ?thesis
    by (simp add: chainA_def graphA_def edgeOf_def nodeOf_def)
qed

section \<open>The aggregation loop\<close>

lemma mergeVuln_DevOnly:
  assumes "\<forall>v\<in>set recorded. \<not> DevOnly v" and "\<not> DevOnly resVuln"
  shows "\<forall>v\<in>set (mergeVuln recorded resVuln). \<not> DevOnly v"
proof
  fix v assume v: "v \<in> set (mergeVuln recorded resVuln)"
  let ?idx = "IndexFunc recorded (\<lambda>rv. ID (Vulnerability rv) = ID (Vulnerability resVuln))"
  show "\<not> DevOnly v"
  proof (cases "?idx \<ge> 0")
    case True
    let ?new = "(recorded ! nat ?idx)
             \<lparr>ProblemChains := ProblemChains (recorded ! nat ?idx) @ ProblemChains resVuln,
              DevOnly := DevOnly (recorded ! nat ?idx) \<and> DevOnly resVuln\<rparr>"
    from True v have "v \<in> set (recorded[nat ?idx := ?new])"
      by (simp add: mergeVuln_def Let_def)
    then have "v = ?new \<or> v \<in> set recorded"
      using set_update_subset_insert [of recorded "nat ?idx" ?new] by auto
    then show ?thesis
      using assms by auto
  next
    case False
    with v have "v \<in> set (recorded @ [resVuln])"
      by (simp add: mergeVuln_def Let_def)
    then show ?thesis using assms by auto
  qed
qed

lemma set_storeVulns:
  "set (storeVulns m vk vulns) \<subseteq> insert (vk, vulns) (set m)"
  by (induction m vk vulns rule: storeVulns.induct) auto

lemma lookupVulns_cases:
  "lookupVulns m vk = [] \<or> (vk, lookupVulns m vk) \<in> set m"
  by (auto simp: lookupVulns_def dest: map_of_SomeD split: option.splits)

lemma addNodeVulns_DevOnly:
  "noneDevOnly m \<Longrightarrow> noneDevOnly (addNodeVulns found vk m vulns)"
proof (induction vulns arbitrary: m)
  case Nil
  then show ?case by simp
next
  case (Cons vuln vulns)
  let ?rv = "\<lparr>Vulnerability = vuln, ProblemChains = found, DevOnly = False\<rparr>"
  have old: "\<forall>v\<in>set (lookupVulns m vk). \<not> DevOnly v"
    using lookupVulns_cases [of m vk] Cons.prems by (auto simp: noneDevOnly_def)
  have new: "\<forall>v\<in>set (mergeVuln (lookupVulns m vk) ?rv). \<not> DevOnly v"
    by (rule mergeVuln_DevOnly [OF old]) simp
  have "noneDevOnly (storeVulns m vk (mergeVuln (lookupVulns m vk) ?rv))"
    using set_storeVulns [of m vk "mergeVuln (lookupVulns m vk) ?rv"] new Cons.prems
    unfolding noneDevOnly_def by blast
  from Cons.IH [OF this] show ?case by simp
qed

lemma aggregate_DevOnly:
  "aggregate graph nodeVulns pairs result = Ok res \<Longrightarrow> noneDevOnly (vkVulns result)
   \<Longrightarrow> noneDevOnly (vkVulns res)"
proof (induction pairs arbitrary: result)
  case Nil
  then show ?case by simp
next
  case (Cons pair pairs)
  obtain nID found where pair: "pair = (nID, found)" by (cases pair)
  from Cons.prems(1) obtain n vulns where
    n: "index (Nodes graph) nID = Ok n" and vulns: "index nodeVulns nID = Ok vulns"
    and rest: "aggregate graph nodeVulns pairs
              (result\<lparr>vkNodes := (vkNodes result)(Node.Version n := vkNodes result (Node.Version n) @ [nID]),
                      vkVulns := addNodeVulns found (Node.Version n) (vkVulns result) vulns\<rparr>) = Ok res"
    by (auto simp: pair Let_def split: result.splits)
  show ?case
    by (rule Cons.IH [OF rest]) (simp add: addNodeVulns_DevOnly [OF Cons.prems(2)])
qed

section \<open>The patch loop\<close>

lemma IndexFunc_neg: "IndexFunc xs f < 0 \<Longrightarrow> \<forall>x\<in>set xs. \<not> f x"
  by (induction xs) (auto simp: Let_def split: if_splits)

lemma IndexFunc_nonneg:
  "0 \<le> IndexFunc xs f \<Longrightarrow> nat (IndexFunc xs f) < length xs \<and> f (xs ! nat (IndexFunc xs f))"
proof (induction xs)
  case Nil
  then show ?case by simp
next
  case (Cons x xs)
  show ?case
  proof (cases "f x")
    case True
    then show ?thesis by simp
  next
    case False
    with Cons.prems have nn: "0 \<le> IndexFunc xs f"
      by (simp add: Let_def split: if_splits)
    with False have eq: "IndexFunc (x # xs) f = IndexFunc xs f + 1"
      by (simp add: Let_def)
    from nn have "nat (IndexFunc xs f + 1) = Suc (nat (IndexFunc xs f))"
      by simp
    with Cons.IH [OF nn] eq show ?thesis by simp
  qed
qed

lemma IndexFunc_found: "\<exists>x\<in>set xs. f x \<Longrightarrow> 0 \<le> IndexFunc xs f"
  using IndexFunc_neg [of xs f] by fastforce

lemma addPatch_existing:
  assumes "\<exists>p\<in>set (Patches r). DependencyPatch p = dp"
  shows "\<exists>i<length (Patches r). DependencyPatch (Patches r ! i) = dp
           \<and> addPatch r dp v = r\<lparr>Patches := (Patches r)[i := (Patches r ! i)
                 \<lparr>ResolvedVulns := ResolvedVulns (Patches r ! i) @ [v]\<rparr>]\<rparr>"
proof -
  let ?idx = "IndexFunc (Patches r) (\<lambda>ipp. DependencyPatch ipp = dp)"
  have nn: "0 \<le> ?idx" by (rule IndexFunc_found) (use assms in simp)
  from IndexFunc_nonneg [OF nn] nn show ?thesis
    by (auto simp: addPatch_def Let_def)
qed

lemma addPatch_keys:
  "map DependencyPatch (Patches (addPatch r dp v)) =
     (if \<exists>p\<in>set (Patches r). DependencyPatch p = dp
      then map DependencyPatch (Patches r) else map DependencyPatch (Patches r) @ [dp])"
proof (cases "\<exists>p\<in>set (Patches r). DependencyPatch p = dp")
  case True
  from addPatch_existing [OF True, of v] obtain i where
    i: "i < length (Patches r)" "DependencyPatch (Patches r ! i) = dp"
       "addPatch r dp v = r\<lparr>Patches := (Patches r)[i := (Patches r ! i)
                 \<lparr>ResolvedVulns := ResolvedVulns (Patches r ! i) @ [v]\<rparr>]\<rparr>"
    by blast
  have "map DependencyPatch ((Patches r)[i := (Patches r ! i)
                 \<lparr>ResolvedVulns := ResolvedVulns (Patches r ! i) @ [v]\<rparr>]) = map DependencyPatch (Patches r)"
    using i(1) by (simp add: map_update list_update_same_conv)
  with True i(3) show ?thesis by simp
next
  case False
  then have "\<not> 0 \<le> IndexFunc (Patches r) (\<lambda>ipp. DependencyPatch ipp = dp)"
    using IndexFunc_nonneg [of "Patches r" "\<lambda>ipp. DependencyPatch ipp = dp"] by force
  with False show ?thesis
    by (simp add: addPatch_def Let_def)
qed

lemma addPatch_distinct:
  "distinct (map DependencyPatch (Patches r)) \<Longrightarrow>
   distinct (map DependencyPatch (Patches (addPatch r dp v)))"
  by (auto simp: addPatch_keys)

lemma addPatch_Unfixable: "Unfixable (addPatch r dp v) = Unfixable r"
  by (simp add: addPatch_def Let_def)

lemma patchVulns_invariant:
  assumes "patchVulns sv cl isAffected opts res cons vk vulnList result = Ok result'"
    and "P result"
    and "\<And>r v. P r \<Longrightarrow> v \<in> set vulnList \<Longrightarrow> MatchVuln opts v
            \<Longrightarrow> P (r\<lparr>Unfixable := Unfixable r @ [v]\<rparr>)"
    and "\<And>r v newV. P r \<Longrightarrow> v \<in> set vulnList \<Longrightarrow> MatchVuln opts v
            \<Longrightarrow> Name (PackageKey vk) \<notin> set (AvoidPkgs opts)
            \<Longrightarrow> P (addPatch r \<lparr>Pkg = PackageKey vk, OrigVersion = VersionKey.Version vk,
                                 NewVersion = newV\<rparr> v)"
  shows "P result'"
  using assms
proof (induction vulnList arbitrary: result)
  case Nil
  then show ?case by simp
next
  case (Cons vuln vulnList)
  note unfix = Cons.prems(3) and patch = Cons.prems(4)
  have unfix': "\<And>r v. P r \<Longrightarrow> v \<in> set vulnList \<Longrightarrow> MatchVuln opts v
            \<Longrightarrow> P (r\<lparr>Unfixable := Unfixable r @ [v]\<rparr>)"
    using unfix by simp
  have patch': "\<And>r v newV. P r \<Longrightarrow> v \<in> set vulnList \<Longrightarrow> MatchVuln opts v
            \<Longrightarrow> Name (PackageKey vk) \<notin> set (AvoidPkgs opts)
            \<Longrightarrow> P (addPatch r \<lparr>Pkg = PackageKey vk, OrigVersion = VersionKey.Version vk,
                                 NewVersion = newV\<rparr> v)"
    using patch by simp
  show ?case
  proof (cases "MatchVuln opts vuln")
    case False
    with Cons.prems(1) have "patchVulns sv cl isAffected opts res cons vk vulnList result = Ok result'"
      by simp
    from Cons.IH [OF this Cons.prems(2) unfix' patch'] show ?thesis .
  next
    case match: True
    show ?thesis
    proof (cases "Name (PackageKey vk) \<in> set (AvoidPkgs opts)")
      case True
      with match Cons.prems(1) have
        step: "patchVulns sv cl isAffected opts res cons vk vulnList
                 (result\<lparr>Unfixable := Unfixable result @ [vuln]\<rparr>) = Ok result'"
        by simp
      have "P (result\<lparr>Unfixable := Unfixable result @ [vuln]\<rparr>)"
        using unfix [OF Cons.prems(2) _ match] by simp
      from Cons.IH [OF step this unfix' patch'] show ?thesis .
    next
      case False
      show ?thesis
      proof (cases "findFixedVersion sv cl (PackageKey vk)
                      (satisfy sv cl isAffected opts res cons vk vuln)")
        case Panic
        with match False Cons.prems(1) show ?thesis by simp
      next
        case (Err err)
        with match False Cons.prems(1) have
          step: "patchVulns sv cl isAffected opts res cons vk vulnList
                   (result\<lparr>Unfixable := Unfixable result @ [vuln]\<rparr>) = Ok result'"
          by (simp split: if_splits)
        have "P (result\<lparr>Unfixable := Unfixable result @ [vuln]\<rparr>)"
          using unfix [OF Cons.prems(2) _ match] by simp
        from Cons.IH [OF step this unfix' patch'] show ?thesis .
      next
        case (Ok newVK)
        with match False Cons.prems(1) have
          step: "patchVulns sv cl isAffected opts res cons vk vulnList
                   (addPatch result \<lparr>Pkg = PackageKey vk, OrigVersion = VersionKey.Version vk,
                       NewVersion = VersionKey.Version newVK\<rparr> vuln) = Ok result'"
          by simp
        have "P (addPatch result \<lparr>Pkg = PackageKey vk, OrigVersion = VersionKey.Version vk,
                       NewVersion = VersionKey.Version newVK\<rparr> vuln)"
          using patch [OF Cons.prems(2) _ match False] by simp
        from Cons.IH [OF step this unfix' patch'] show ?thesis .
      qed
    qed
  qed
qed

lemma patchEntries_invariant:
  assumes "patchEntries sv cl isAffected opts res cons entries result = Ok result'"
    and "P result"
    and "\<And>r vk vulnList v. P r \<Longrightarrow> (vk, vulnList) \<in> set entries \<Longrightarrow> v \<in> set vulnList
            \<Longrightarrow> MatchVuln opts v \<Longrightarrow> P (r\<lparr>Unfixable := Unfixable r @ [v]\<rparr>)"
    and "\<And>r vk vulnList v newV. P r \<Longrightarrow> (vk, vulnList) \<in> set entries \<Longrightarrow> v \<in> set vulnList
            \<Longrightarrow> MatchVuln opts v \<Longrightarrow> Name (PackageKey vk) \<notin> set (AvoidPkgs opts)
            \<Longrightarrow> P (addPatch r \<lparr>Pkg = PackageKey vk, OrigVersion = VersionKey.Version vk,
                                 NewVersion = newV\<rparr> v)"
  shows "P result'"
  using assms
proof (induction entries arbitrary: result)
  case Nil
  then show ?case by simp
next
  case (Cons entry entries)
  obtain vk vulnList where entry: "entry = (vk, vulnList)" by (cases entry)
  from Cons.prems(1) obtain mid where
    first: "patchVulns sv cl isAffected opts res cons vk vulnList result = Ok mid"
    and rest: "patchEntries sv cl isAffected opts res cons entries mid = Ok result'"
    by (auto simp: entry split: result.splits)
  have mid: "P mid"
  proof (rule patchVulns_invariant [where P = P, OF first Cons.prems(2)])
    fix r v assume "P r" "v \<in> set vulnList" "MatchVuln opts v"
    then show "P (r\<lparr>Unfixable := Unfixable r @ [v]\<rparr>)"
      using Cons.prems(3) [of r vk vulnList v] by (simp add: entry)
  next
    fix r v newV
    assume "P r" "v \<in> set vulnList" "MatchVuln opts v" "Name (PackageKey vk) \<notin> set (AvoidPkgs opts)"
    then show "P (addPatch r \<lparr>Pkg = PackageKey vk, OrigVersion = VersionKey.Version vk,
                                 NewVersion = newV\<rparr> v)"
      using Cons.prems(4) [of r vk vulnList v newV] by (simp add: entry)
  qed
  show ?case
  proof (rule Cons.IH [OF rest mid])
    fix r vk' vulnList' v
    assume "P r" "(vk', vulnList') \<in> set entries" "v \<in> set vulnList'" "MatchVuln opts v"
    then show "P (r\<lparr>Unfixable := Unfixable r @ [v]\<rparr>)"
      using Cons.prems(3) [of r vk' vulnList' v] by simp
  next
    fix r vk' vulnList' v newV
    assume "P r" "(vk', vulnList') \<in> set entries" "v \<in> set vulnList'" "MatchVuln opts v"
      "Name (PackageKey vk') \<notin> set (AvoidPkgs opts)"
    then show "P (addPatch r \<lparr>Pkg = PackageKey vk', OrigVersion = VersionKey.Version vk',
                                 NewVersion = newV\<rparr> v)"
      using Cons.prems(4) [of r vk' vulnList' v newV] by simp
  qed
qed

lemma ComputeInPlacePatches_Ok:
  assumes "ComputeInPlacePatches sv ord cl isAffected graph opts = Ok result"
  shows "\<exists>res cons loop. inPlaceVulnsNodes cl graph = Ok res
           \<and> dependentConstraints sv ord (rangeVkVulns ord (vkVulns res)) Map.empty = Ok cons
           \<and> patchEntries sv cl isAffected opts res cons (rangeVkVulns ord (vkVulns res))
                \<lparr>Patches = [], Unfixable = []\<rparr> = Ok loop
           \<and> result = loop\<lparr>Patches := SortFunc (Patches loop) comparePatches\<rparr>"
  using assms by (auto simp: ComputeInPlacePatches_def split: result.splits)

text \<open>
  Claim C4. In every result that \<open>ComputeInPlacePatches\<close> returns, the
  \<open>DependencyPatch\<close> values (package, original version, new version) of the patches
  are pairwise different; and the step that records a fixed vulnerability, when a
  patch with the same \<open>DependencyPatch\<close> is already in the list, appends the
  vulnerability to the \<open>ResolvedVulns\<close> of that patch and adds no patch.
\<close>

theorem patches_distinct:
  assumes "ComputeInPlacePatches sv ord cl isAffected graph opts = Ok result"
  shows "distinct (map DependencyPatch (Patches result))
       \<and> ((\<exists>p\<in>set (Patches r). DependencyPatch p = dp) \<longrightarrow>
            (\<exists>i<length (Patches r). DependencyPatch (Patches r ! i) = dp
               \<and> addPatch r dp v = r\<lparr>Patches := (Patches r)[i := (Patches r ! i)
                     \<lparr>ResolvedVulns := ResolvedVulns (Patches r ! i) @ [v]\<rparr>]\<rparr>))"
proof
  from ComputeInPlacePatches_Ok [OF assms] obtain res cons loop where
    loop: "patchEntries sv cl isAffected opts res cons (rangeVkVulns ord (vkVulns res))
                \<lparr>Patches = [], Unfixable = []\<rparr> = Ok loop"
    and result: "result = loop\<lparr>Patches := SortFunc (Patches loop) comparePatches\<rparr>"
    by blast
  have "distinct (map DependencyPatch (Patches loop))"
    by (rule patchEntries_invariant [OF loop, where P = "\<lambda>r. distinct (map DependencyPatch (Patches r))"])
       (simp_all add: addPatch_distinct)
  moreover have "mset (map DependencyPatch (Patches result)) = mset (map DependencyPatch (Patches loop))"
    by (simp add: result mset_SortFunc)
  ultimately show "distinct (map DependencyPatch (Patches result))"
    by (metis mset_eq_imp_distinct_iff)
next
  show "(\<exists>p\<in>set (Patches r). DependencyPatch p = dp) \<longrightarrow>
            (\<exists>i<length (Patches r). DependencyPatch (Patches r ! i) = dp
               \<and> addPatch r dp v = r\<lparr>Patches := (Patches r)[i := (Patches r ! i)
                     \<lparr>ResolvedVulns := ResolvedVulns (Patches r ! i) @ [v]\<rparr>]\<rparr>)"
    using addPatch_existing by blast
qed

lemma run_graphBC:
  "ComputeInPlacePatches toySemver insertionOrder clientBC isAff graphBC optsAll
     = Ok \<lparr>Patches = [patchB, patchC], Unfixable = []\<rparr>"
  by code_simp

text \<open>
  An instance: the two vulnerabilities of B are both fixed by \<open>1.0.0 \<rightarrow> 1.1.0\<close> and
  share one patch, the second being appended to the patch that the first created.
\<close>

theorem patches_distinct_witness:
  "ComputeInPlacePatches toySemver insertionOrder clientBC isAff graphBC optsAll
     = Ok \<lparr>Patches = [patchB, patchC], Unfixable = []\<rparr>
   \<and> distinct (map DependencyPatch [patchB, patchC])
   \<and> addPatch \<lparr>Patches = [patchB\<lparr>ResolvedVulns := [vulnOn vulnB1 chainB]\<rparr>], Unfixable = []\<rparr>
        (DependencyPatch patchB) (vulnOn vulnB2 chainB)
      = \<lparr>Patches = [patchB], Unfixable = []\<rparr>"
proof -
  let ?first = "patchB\<lparr>ResolvedVulns := [vulnOn vulnB1 chainB]\<rparr>"
  let ?r = "\<lparr>Patches = [?first], Unfixable = []\<rparr>"
  note both = patches_distinct [OF run_graphBC, of ?r "DependencyPatch patchB" "vulnOn vulnB2 chainB"]
  from both have one: "distinct (map DependencyPatch [patchB, patchC])"
    by simp
  have "\<exists>p\<in>set (Patches ?r). DependencyPatch p = DependencyPatch patchB"
    by simp
  with both obtain i where i: "i < length (Patches ?r)"
    "addPatch ?r (DependencyPatch patchB) (vulnOn vulnB2 chainB)
       = ?r\<lparr>Patches := (Patches ?r)[i := (Patches ?r ! i)
             \<lparr>ResolvedVulns := ResolvedVulns (Patches ?r ! i) @ [vulnOn vulnB2 chainB]\<rparr>]\<rparr>"
    by blast
  from i(1) have "i = 0" by simp
  with i(2) have two: "addPatch ?r (DependencyPatch patchB) (vulnOn vulnB2 chainB)
      = \<lparr>Patches = [patchB], Unfixable = []\<rparr>"
    by (simp add: patchB_def)
  from run_graphBC one two show ?thesis by blast
qed

section \<open>The order of the patches\<close>

lemma cmpCompare_sign:
  "cmpCompare a b < 0 \<longleftrightarrow> a < b" "cmpCompare a b = 0 \<longleftrightarrow> a = b" "0 < cmpCompare a b \<longleftrightarrow> b < a"
  "cmpCompare a b \<le> 0 \<longleftrightarrow> a \<le> b" "0 \<le> cmpCompare a b \<longleftrightarrow> b \<le> a"
  by (auto simp: cmpCompare_def)

lemma comparePatches_le: "comparePatches a b \<le> 0 \<longleftrightarrow> patchBefore a b"
  unfolding comparePatches_def patchBefore_def Let_def
  by (auto simp: cmpCompare_sign neg_le_0_iff_le split: if_splits)

lemma comparePatches_ge: "0 \<le> comparePatches a b \<longleftrightarrow> patchBefore b a"
  unfolding comparePatches_def patchBefore_def Let_def
  by (auto simp: cmpCompare_sign split: if_splits)

lemma patchBefore_trans: "patchBefore a b \<Longrightarrow> patchBefore b c \<Longrightarrow> patchBefore a c"
  unfolding patchBefore_def by (elim disjE conjE) auto

lemma strictWeakOrder_comparePatches: "strictWeakOrder UNIV comparePatches"
  unfolding strictWeakOrder_def
  by (auto simp: comparePatches_le comparePatches_ge intro: patchBefore_trans)

text \<open>
  Claim C5. In every result that \<open>ComputeInPlacePatches\<close> returns, for two adjacent
  patches \<open>a\<close> (earlier) and \<open>b\<close>: \<open>a\<close> resolves at least as many
  vulnerabilities as \<open>b\<close>; with equal counts the package name of \<open>a\<close> is not after
  that of \<open>b\<close>; with equal names the original version of \<open>a\<close> is not after that of
  \<open>b\<close> as a string of bytes; and with equal original versions the new version of
  \<open>a\<close> is not before that of \<open>b\<close>.
\<close>

theorem patches_sorted:
  assumes "ComputeInPlacePatches sv ord cl isAffected graph opts = Ok result"
    and "Suc i < length (Patches result)"
    and "a = Patches result ! i" and "b = Patches result ! Suc i"
  shows "length (ResolvedVulns b) \<le> length (ResolvedVulns a)
       \<and> (length (ResolvedVulns a) = length (ResolvedVulns b) \<longrightarrow>
            Name (Pkg (DependencyPatch a)) \<le> Name (Pkg (DependencyPatch b))
          \<and> (Name (Pkg (DependencyPatch a)) = Name (Pkg (DependencyPatch b)) \<longrightarrow>
               OrigVersion (DependencyPatch a) \<le> OrigVersion (DependencyPatch b)
             \<and> (OrigVersion (DependencyPatch a) = OrigVersion (DependencyPatch b) \<longrightarrow>
                  NewVersion (DependencyPatch b) \<le> NewVersion (DependencyPatch a))))"
proof -
  from ComputeInPlacePatches_Ok [OF assms(1)] obtain loop where
    result: "result = loop\<lparr>Patches := SortFunc (Patches loop) comparePatches\<rparr>"
    by blast
  have "sorted_wrt (\<lambda>a b. comparePatches a b \<le> 0) (Patches result)"
    using sorted_SortFunc [OF strictWeakOrder_comparePatches] by (simp add: result)
  from sorted_wrt_nth_less [OF this, of i "Suc i"] assms(2)
  have "comparePatches a b \<le> 0"
    by (simp add: assms(3,4))
  then have "patchBefore a b"
    by (simp add: comparePatches_le)
  then show ?thesis
    unfolding patchBefore_def by auto
qed

lemma run_graphBB:
  "ComputeInPlacePatches toySemver insertionOrder clientBB isAff graphBB optsAll
     = Ok \<lparr>Patches = [patchB10, patchB9], Unfixable = []\<rparr>"
  by code_simp

text \<open>
  An instance: two patches of B with one vulnerability each; the patch of \<open>10.0.0\<close>
  comes first, since \<open>10.0.0\<close> is below \<open>9.0.0\<close> as a string.
\<close>

theorem patches_sorted_witness:
  "ComputeInPlacePatches toySemver insertionOrder clientBB isAff graphBB optsAll
     = Ok \<lparr>Patches = [patchB10, patchB9], Unfixable = []\<rparr>
   \<and> length (ResolvedVulns patchB10) = length (ResolvedVulns patchB9)
   \<and> Name (Pkg (DependencyPatch patchB10)) = Name (Pkg (DependencyPatch patchB9))
   \<and> OrigVersion (DependencyPatch patchB10) \<le> OrigVersion (DependencyPatch patchB9)
   \<and> OrigVersion (DependencyPatch patchB10) = ''10.0.0''
   \<and> OrigVersion (DependencyPatch patchB9) = ''9.0.0''"
proof -
  have len: "Suc 0 < length (Patches \<lparr>Patches = [patchB10, patchB9], Unfixable = []\<rparr>)"
    by simp
  have a: "patchB10 = Patches \<lparr>Patches = [patchB10, patchB9], Unfixable = []\<rparr> ! 0"
    and b: "patchB9 = Patches \<lparr>Patches = [patchB10, patchB9], Unfixable = []\<rparr> ! Suc 0"
    by simp_all
  have same: "length (ResolvedVulns patchB10) = length (ResolvedVulns patchB9)"
      "Name (Pkg (DependencyPatch patchB10)) = Name (Pkg (DependencyPatch patchB9))"
    by (simp_all add: patchB10_def patchB9_def)
  from patches_sorted [OF run_graphBB len a b] same
  have "OrigVersion (DependencyPatch patchB10) \<le> OrigVersion (DependencyPatch patchB9)"
    by blast
  with run_graphBB same show ?thesis
    by (simp add: patchB10_def patchB9_def)
qed

section \<open>Avoided packages\<close>

lemma addPatch_patches:
  assumes "p \<in> set (Patches (addPatch r dp v))"
  shows "p \<in> set (Patches r)
       \<or> (DependencyPatch p = dp
          \<and> (\<forall>x\<in>set (ResolvedVulns p). x = v
                \<or> (\<exists>q\<in>set (Patches r). DependencyPatch q = dp \<and> x \<in> set (ResolvedVulns q))))"
proof (cases "\<exists>q\<in>set (Patches r). DependencyPatch q = dp")
  case True
  from addPatch_existing [OF True, of v] obtain i where
    i: "i < length (Patches r)" "DependencyPatch (Patches r ! i) = dp"
       "addPatch r dp v = r\<lparr>Patches := (Patches r)[i := (Patches r ! i)
                 \<lparr>ResolvedVulns := ResolvedVulns (Patches r ! i) @ [v]\<rparr>]\<rparr>"
    by blast
  let ?new = "(Patches r ! i)\<lparr>ResolvedVulns := ResolvedVulns (Patches r ! i) @ [v]\<rparr>"
  from assms i(3) have "p \<in> set ((Patches r)[i := ?new])" by simp
  then have "p = ?new \<or> p \<in> set (Patches r)"
    using set_update_subset_insert [of "Patches r" i ?new] by auto
  then show ?thesis
  proof
    assume p: "p = ?new"
    have "Patches r ! i \<in> set (Patches r)" using i(1) by simp
    with p i(2) show ?thesis by auto
  qed simp
next
  case False
  then have "\<not> 0 \<le> IndexFunc (Patches r) (\<lambda>ipp. DependencyPatch ipp = dp)"
    using IndexFunc_nonneg [of "Patches r" "\<lambda>ipp. DependencyPatch ipp = dp"] by force
  with assms show ?thesis
    by (auto simp: addPatch_def Let_def)
qed

lemma patchVulns_Unfixable_mono:
  assumes "patchVulns sv cl isAffected opts res cons vk vulnList result = Ok result'"
  shows "set (Unfixable result) \<subseteq> set (Unfixable result')"
  by (rule patchVulns_invariant
        [where P = "\<lambda>r. set (Unfixable result) \<subseteq> set (Unfixable r)", OF assms])
     (auto simp: addPatch_Unfixable)

lemma patchEntries_Unfixable_mono:
  assumes "patchEntries sv cl isAffected opts res cons entries result = Ok result'"
  shows "set (Unfixable result) \<subseteq> set (Unfixable result')"
  by (rule patchEntries_invariant
        [where P = "\<lambda>r. set (Unfixable result) \<subseteq> set (Unfixable r)", OF assms])
     (auto simp: addPatch_Unfixable)

lemma patchVulns_avoided:
  assumes "patchVulns sv cl isAffected opts res cons vk vulnList result = Ok result'"
    and "Name (PackageKey vk) \<in> set (AvoidPkgs opts)"
  shows "\<forall>v\<in>set vulnList. MatchVuln opts v \<longrightarrow> v \<in> set (Unfixable result')"
  using assms(1)
proof (induction vulnList arbitrary: result)
  case Nil
  then show ?case by simp
next
  case (Cons vuln vulnList)
  show ?case
  proof (cases "MatchVuln opts vuln")
    case False
    with Cons.prems have "patchVulns sv cl isAffected opts res cons vk vulnList result = Ok result'"
      by simp
    from Cons.IH [OF this] False show ?thesis by simp
  next
    case True
    with Cons.prems assms(2) have
      step: "patchVulns sv cl isAffected opts res cons vk vulnList
               (result\<lparr>Unfixable := Unfixable result @ [vuln]\<rparr>) = Ok result'"
      by simp
    from patchVulns_Unfixable_mono [OF step] have "vuln \<in> set (Unfixable result')"
      by auto
    with Cons.IH [OF step] show ?thesis by simp
  qed
qed

lemma patchEntries_avoided:
  assumes "patchEntries sv cl isAffected opts res cons entries result = Ok result'"
    and "(vk, vulnList) \<in> set entries"
    and "Name (PackageKey vk) \<in> set (AvoidPkgs opts)"
    and "v \<in> set vulnList" and "MatchVuln opts v"
  shows "v \<in> set (Unfixable result')"
  using assms(1,2)
proof (induction entries arbitrary: result)
  case Nil
  then show ?case by simp
next
  case (Cons entry entries)
  obtain vk' vulnList' where entry: "entry = (vk', vulnList')" by (cases entry)
  from Cons.prems(1) obtain mid where
    first: "patchVulns sv cl isAffected opts res cons vk' vulnList' result = Ok mid"
    and rest: "patchEntries sv cl isAffected opts res cons entries mid = Ok result'"
    by (auto simp: entry split: result.splits)
  show ?case
  proof (cases "(vk, vulnList) = entry")
    case True
    with entry first have "patchVulns sv cl isAffected opts res cons vk vulnList result = Ok mid"
      by simp
    from patchVulns_avoided [OF this assms(3)] assms(4,5) have "v \<in> set (Unfixable mid)"
      by blast
    with patchEntries_Unfixable_mono [OF rest] show ?thesis by blast
  next
    case False
    with Cons.prems(2) have "(vk, vulnList) \<in> set entries" by auto
    from Cons.IH [OF rest this] show ?thesis .
  qed
qed

lemma patchEntries_provenance:
  assumes "patchEntries sv cl isAffected opts res cons entries \<lparr>Patches = [], Unfixable = []\<rparr> = Ok result'"
  shows "\<forall>p\<in>set (Patches result'). patchProvenance opts entries p"
proof (rule patchEntries_invariant
        [where P = "\<lambda>r. \<forall>p\<in>set (Patches r). patchProvenance opts entries p", OF assms])
  show "\<forall>p\<in>set (Patches \<lparr>Patches = [], Unfixable = []\<rparr>). patchProvenance opts entries p"
    by simp
next
  fix r :: InPlaceResult and v
  assume "\<forall>p\<in>set (Patches r). patchProvenance opts entries p"
  then show "\<forall>p\<in>set (Patches (r\<lparr>Unfixable := Unfixable r @ [v]\<rparr>)). patchProvenance opts entries p"
    by simp
next
  fix r :: InPlaceResult and vk :: VersionKey and vulnList v newV
  assume inv: "\<forall>p\<in>set (Patches r). patchProvenance opts entries p"
    and entry: "(vk, vulnList) \<in> set entries" and v: "v \<in> set vulnList"
    and match: "MatchVuln opts v" and avoid: "Name (PackageKey vk) \<notin> set (AvoidPkgs opts)"
  let ?dp = "\<lparr>Pkg = PackageKey vk, OrigVersion = VersionKey.Version vk, NewVersion = newV\<rparr>"
  show "\<forall>p\<in>set (Patches (addPatch r ?dp v)). patchProvenance opts entries p"
  proof
    fix p assume "p \<in> set (Patches (addPatch r ?dp v))"
    from addPatch_patches [OF this] show "patchProvenance opts entries p"
    proof
      assume "p \<in> set (Patches r)"
      with inv show ?thesis by blast
    next
      assume new: "DependencyPatch p = ?dp
         \<and> (\<forall>x\<in>set (ResolvedVulns p). x = v
               \<or> (\<exists>q\<in>set (Patches r). DependencyPatch q = ?dp \<and> x \<in> set (ResolvedVulns q)))"
      have "\<forall>x\<in>set (ResolvedVulns p). MatchVuln opts x
            \<and> (\<exists>(vk, vulnList)\<in>set entries. x \<in> set vulnList
                  \<and> PackageKey vk = Pkg (DependencyPatch p)
                  \<and> VersionKey.Version vk = OrigVersion (DependencyPatch p))"
      proof
        fix x assume "x \<in> set (ResolvedVulns p)"
        with new have "x = v \<or> (\<exists>q\<in>set (Patches r). DependencyPatch q = ?dp \<and> x \<in> set (ResolvedVulns q))"
          by blast
        then show "MatchVuln opts x
            \<and> (\<exists>(vk, vulnList)\<in>set entries. x \<in> set vulnList
                  \<and> PackageKey vk = Pkg (DependencyPatch p)
                  \<and> VersionKey.Version vk = OrigVersion (DependencyPatch p))"
        proof
          assume "x = v"
          with entry v match new show ?thesis by auto
        next
          assume "\<exists>q\<in>set (Patches r). DependencyPatch q = ?dp \<and> x \<in> set (ResolvedVulns q)"
          then obtain q where q: "q \<in> set (Patches r)" "DependencyPatch q = ?dp" "x \<in> set (ResolvedVulns q)"
            by blast
          from inv q(1) have "patchProvenance opts entries q" by blast
          with q(2,3) new show ?thesis
            unfolding patchProvenance_def by auto
        qed
      qed
      with new avoid show ?thesis
        by (simp add: patchProvenance_def)
    qed
  qed
qed

lemma patchEntries_result_vulns:
  assumes "patchEntries sv cl isAffected opts res cons entries \<lparr>Patches = [], Unfixable = []\<rparr> = Ok result'"
  shows "\<forall>x\<in>set (Unfixable result'). \<exists>(vk, vulnList)\<in>set entries. x \<in> set vulnList"
  by (rule patchEntries_invariant
        [where P = "\<lambda>r. \<forall>x\<in>set (Unfixable r). \<exists>(vk, vulnList)\<in>set entries. x \<in> set vulnList", OF assms])
     (auto simp: addPatch_Unfixable)

lemma aggregated_graphBC:
  "(case inPlaceVulnsNodes clientBC graphBC of Ok res \<Rightarrow> vkVulns res | _ \<Rightarrow> [])
     = [(ver ''C'' ''1.0.0'', [vulnOn vulnC chainC]),
        (ver ''B'' ''1.0.0'', [vulnOn vulnB1 chainB, vulnOn vulnB2 chainB])]"
  by code_simp

lemma run_avoidB:
  "ComputeInPlacePatches toySemver insertionOrder clientBC isAff graphBC optsAvoidB
     = Ok \<lparr>Patches = [patchC], Unfixable = [vulnOn vulnB1 chainB]\<rparr>"
  by code_simp

text \<open>
  Claim C6, as stated, fails: with B avoided and \<open>V-2\<close> filtered out by
  \<open>MatchVuln\<close>, the vulnerability \<open>V-2\<close> of B is recorded by the aggregation but is
  not in \<open>Unfixable\<close> (the filter is applied before the avoid-list).
\<close>

theorem avoided_packages_counterexample:
  "(case inPlaceVulnsNodes clientBC graphBC of Ok res \<Rightarrow> vkVulns res | _ \<Rightarrow> [])
     = [(ver ''C'' ''1.0.0'', [vulnOn vulnC chainC]),
        (ver ''B'' ''1.0.0'', [vulnOn vulnB1 chainB, vulnOn vulnB2 chainB])]
   \<and> Name (PackageKey (ver ''B'' ''1.0.0'')) \<in> set (AvoidPkgs optsAvoidB)
   \<and> ComputeInPlacePatches toySemver insertionOrder clientBC isAff graphBC optsAvoidB
        = Ok \<lparr>Patches = [patchC], Unfixable = [vulnOn vulnB1 chainB]\<rparr>
   \<and> vulnOn vulnB2 chainB \<notin> set [vulnOn vulnB1 chainB]"
  using aggregated_graphBC run_avoidB
  by (simp add: optsAvoidB_def ver_def pkg_def vulnOn_def vulnB1_def vulnB2_def)

text \<open>
  Claim C6, amended. When \<open>ComputeInPlacePatches\<close> returns a result and the
  iteration over \<open>vkVulns\<close> visits exactly its entries: every vulnerability recorded
  for a version key whose package name is in \<open>AvoidPkgs\<close> and that passes the filter
  \<open>MatchVuln\<close> is in \<open>Unfixable\<close>; and no patch is for a package in
  \<open>AvoidPkgs\<close>, every vulnerability a patch resolves having passed the filter and being
  recorded for the package and original version of that patch.
\<close>

theorem avoided_packages:
  assumes run: "ComputeInPlacePatches sv ord cl isAffected graph opts = Ok result"
    and agg: "inPlaceVulnsNodes cl graph = Ok res"
    and visits: "set (rangeVkVulns ord (vkVulns res)) = set (vkVulns res)"
  shows "(\<forall>(vk, vulnList)\<in>set (vkVulns res). Name (PackageKey vk) \<in> set (AvoidPkgs opts) \<longrightarrow>
            (\<forall>v\<in>set vulnList. MatchVuln opts v \<longrightarrow> v \<in> set (Unfixable result)))
       \<and> (\<forall>p\<in>set (Patches result).
            Name (Pkg (DependencyPatch p)) \<notin> set (AvoidPkgs opts)
            \<and> (\<forall>x\<in>set (ResolvedVulns p). MatchVuln opts x
                  \<and> (\<exists>(vk, vulnList)\<in>set (vkVulns res). x \<in> set vulnList
                        \<and> PackageKey vk = Pkg (DependencyPatch p)
                        \<and> VersionKey.Version vk = OrigVersion (DependencyPatch p))))"
proof -
  from ComputeInPlacePatches_Ok [OF run] agg obtain cons loop where
    loop: "patchEntries sv cl isAffected opts res cons (rangeVkVulns ord (vkVulns res))
                \<lparr>Patches = [], Unfixable = []\<rparr> = Ok loop"
    and result: "result = loop\<lparr>Patches := SortFunc (Patches loop) comparePatches\<rparr>"
    by auto
  have unfix: "Unfixable result = Unfixable loop" and pset: "set (Patches result) = set (Patches loop)"
    by (simp_all add: result set_SortFunc)
  have one: "\<forall>(vk, vulnList)\<in>set (vkVulns res). Name (PackageKey vk) \<in> set (AvoidPkgs opts) \<longrightarrow>
            (\<forall>v\<in>set vulnList. MatchVuln opts v \<longrightarrow> v \<in> set (Unfixable result))"
    using patchEntries_avoided [OF loop] visits unfix by auto
  have "\<forall>p\<in>set (Patches loop). patchProvenance opts (rangeVkVulns ord (vkVulns res)) p"
    by (rule patchEntries_provenance [OF loop])
  then have two: "\<forall>p\<in>set (Patches result). patchProvenance opts (vkVulns res) p"
    by (simp add: pset patchProvenance_def visits)
  from one two show ?thesis
    unfolding patchProvenance_def by blast
qed

theorem avoided_packages_witness:
  "ComputeInPlacePatches toySemver insertionOrder clientBC isAff graphBC optsAvoidB
        = Ok \<lparr>Patches = [patchC], Unfixable = [vulnOn vulnB1 chainB]\<rparr>
   \<and> Name (PackageKey (ver ''B'' ''1.0.0'')) \<in> set (AvoidPkgs optsAvoidB)
   \<and> MatchVuln optsAvoidB (vulnOn vulnB1 chainB)
   \<and> vulnOn vulnB1 chainB \<in> set (Unfixable \<lparr>Patches = [patchC], Unfixable = [vulnOn vulnB1 chainB]\<rparr>)
   \<and> Name (Pkg (DependencyPatch patchC)) \<notin> set (AvoidPkgs optsAvoidB)"
proof (cases "inPlaceVulnsNodes clientBC graphBC")
  case Panic
  with aggregated_graphBC show ?thesis by simp
next
  case (Err e)
  with aggregated_graphBC show ?thesis by simp
next
  case (Ok res)
  with aggregated_graphBC have vulns: "vkVulns res = [(ver ''C'' ''1.0.0'', [vulnOn vulnC chainC]),
        (ver ''B'' ''1.0.0'', [vulnOn vulnB1 chainB, vulnOn vulnB2 chainB])]"
    by simp
  have visits: "set (rangeVkVulns insertionOrder (vkVulns res)) = set (vkVulns res)"
    by (simp add: insertionOrder_def)
  have avoided: "Name (PackageKey (ver ''B'' ''1.0.0'')) \<in> set (AvoidPkgs optsAvoidB)"
    by (simp add: optsAvoidB_def ver_def pkg_def)
  have match: "MatchVuln optsAvoidB (vulnOn vulnB1 chainB)"
    by (simp add: optsAvoidB_def vulnOn_def vulnB1_def)
  note both = avoided_packages [OF run_avoidB Ok visits]
  from both have "\<forall>(vk, vulnList)\<in>set (vkVulns res).
      Name (PackageKey vk) \<in> set (AvoidPkgs optsAvoidB) \<longrightarrow>
      (\<forall>v\<in>set vulnList. MatchVuln optsAvoidB v \<longrightarrow>
         v \<in> set (Unfixable \<lparr>Patches = [patchC], Unfixable = [vulnOn vulnB1 chainB]\<rparr>))"
    by (rule conjunct1)
  with avoided match
  have one: "vulnOn vulnB1 chainB \<in> set (Unfixable \<lparr>Patches = [patchC], Unfixable = [vulnOn vulnB1 chainB]\<rparr>)"
    by (simp add: vulns)
  from both have two: "Name (Pkg (DependencyPatch patchC)) \<notin> set (AvoidPkgs optsAvoidB)"
    by simp
  from run_avoidB avoided match one two show ?thesis by blast
qed

section \<open>No vulnerability is reported as dev-only\<close>

text \<open>
  Claim C10. Every \<open>ResolutionVuln\<close> in the \<open>vkVulns\<close> map that
  \<open>inPlaceVulnsNodes\<close> returns has \<open>DevOnly = False\<close>: a new record is created with
  \<open>False\<close>, and a merge stores the conjunction of the recorded flag with \<open>False\<close>.
  Hence, when the iteration over the map yields entries of the map only, every
  vulnerability in \<open>Unfixable\<close> and in the \<open>ResolvedVulns\<close> of a patch of a result of
  \<open>ComputeInPlacePatches\<close> has \<open>DevOnly = False\<close>.
\<close>

theorem aggregated_never_DevOnly:
  assumes "inPlaceVulnsNodes cl graph = Ok res"
  shows "(\<forall>(vk, vulns)\<in>set (vkVulns res). \<forall>v\<in>set vulns. \<not> DevOnly v)
       \<and> (set (rangeVkVulns ord (vkVulns res)) \<subseteq> set (vkVulns res)
            \<and> ComputeInPlacePatches sv ord cl isAffected graph opts = Ok result \<longrightarrow>
          (\<forall>v\<in>set (Unfixable result). \<not> DevOnly v)
          \<and> (\<forall>p\<in>set (Patches result). \<forall>v\<in>set (ResolvedVulns p). \<not> DevOnly v))"
proof (intro conjI impI)
  from assms obtain nodeVulns deps nodeIDs nodeChains where
    "aggregate graph nodeVulns (zip nodeIDs nodeChains)
       \<lparr>nodeDependencies = deps, vkVulns = [], vkNodes = (\<lambda>_. [])\<rparr> = Ok res"
    by (auto simp: inPlaceVulnsNodes_def Let_def split: sum.splits result.splits)
  from aggregate_DevOnly [OF this] have none: "noneDevOnly (vkVulns res)"
    by (simp add: noneDevOnly_def)
  then show "\<forall>(vk, vulns)\<in>set (vkVulns res). \<forall>v\<in>set vulns. \<not> DevOnly v"
    by (simp add: noneDevOnly_def)
  assume run: "set (rangeVkVulns ord (vkVulns res)) \<subseteq> set (vkVulns res)
            \<and> ComputeInPlacePatches sv ord cl isAffected graph opts = Ok result"
  let ?entries = "rangeVkVulns ord (vkVulns res)"
  from run ComputeInPlacePatches_Ok [of sv ord cl isAffected graph opts result] assms
  obtain cons loop where
    loop: "patchEntries sv cl isAffected opts res cons ?entries
                \<lparr>Patches = [], Unfixable = []\<rparr> = Ok loop"
    and result: "result = loop\<lparr>Patches := SortFunc (Patches loop) comparePatches\<rparr>"
    by auto
  have entries: "\<forall>(vk, vulnList)\<in>set ?entries. \<forall>v\<in>set vulnList. \<not> DevOnly v"
    using none run unfolding noneDevOnly_def by blast
  show "\<forall>v\<in>set (Unfixable result). \<not> DevOnly v"
    using patchEntries_result_vulns [OF loop] entries by (fastforce simp: result)
  have "\<forall>p\<in>set (Patches loop). patchProvenance opts ?entries p"
    by (rule patchEntries_provenance [OF loop])
  then have "\<forall>p\<in>set (Patches loop). \<forall>v\<in>set (ResolvedVulns p). \<not> DevOnly v"
    using entries unfolding patchProvenance_def by fastforce
  then show "\<forall>p\<in>set (Patches result). \<forall>v\<in>set (ResolvedVulns p). \<not> DevOnly v"
    by (simp add: result set_SortFunc)
qed

lemma aggregated_graphTwice:
  "(case inPlaceVulnsNodes clientTwice graphTwice of Ok res \<Rightarrow> vkVulns res | _ \<Rightarrow> [])
     = [(ver ''B'' ''1.0.0'', [mergedB1])]"
  by code_simp

lemma run_graphTwice:
  "ComputeInPlacePatches toySemver insertionOrder clientTwice isAff graphTwice optsAll
     = Ok \<lparr>Patches = [], Unfixable = [mergedB1]\<rparr>"
  by code_simp

text \<open>
  An instance with a merge: the two occurrences of \<open>V-1\<close> on B become one record
  with both chains, which ends in \<open>Unfixable\<close> (the exact requirement \<open>1.0.0\<close> of
  the root admits no other version).
\<close>

theorem aggregated_never_DevOnly_witness:
  "(\<exists>res. inPlaceVulnsNodes clientTwice graphTwice = Ok res
      \<and> vkVulns res = [(ver ''B'' ''1.0.0'', [mergedB1])])
   \<and> ComputeInPlacePatches toySemver insertionOrder clientTwice isAff graphTwice optsAll
      = Ok \<lparr>Patches = [], Unfixable = [mergedB1]\<rparr>
   \<and> \<not> DevOnly mergedB1"
proof (cases "inPlaceVulnsNodes clientTwice graphTwice")
  case Panic
  with aggregated_graphTwice show ?thesis by simp
next
  case (Err e)
  with aggregated_graphTwice show ?thesis by simp
next
  case (Ok res)
  with aggregated_graphTwice have vulns: "vkVulns res = [(ver ''B'' ''1.0.0'', [mergedB1])]"
    by simp
  have visits: "set (rangeVkVulns insertionOrder (vkVulns res)) \<subseteq> set (vkVulns res)"
    by (simp add: insertionOrder_def)
  note both = aggregated_never_DevOnly [OF Ok, of insertionOrder toySemver isAff optsAll
      "\<lparr>Patches = [], Unfixable = [mergedB1]\<rparr>"]
  from both visits run_graphTwice
  have "\<forall>v\<in>set (Unfixable \<lparr>Patches = [], Unfixable = [mergedB1]\<rparr>). \<not> DevOnly v"
    by blast
  then have "\<not> DevOnly mergedB1"
    by simp
  with Ok vulns run_graphTwice show ?thesis by blast
qed

section \<open>Errors of the collaborators\<close>

lemma patchVulns_append:
  "patchVulns sv cl isAffected opts res cons vk (xs @ ys) result =
     (case patchVulns sv cl isAffected opts res cons vk xs result of
        Panic \<Rightarrow> Panic
      | Err err \<Rightarrow> Err err
      | Ok mid \<Rightarrow> patchVulns sv cl isAffected opts res cons vk ys mid)"
  by (induction xs arbitrary: result) (auto split: result.splits)

lemma patchEntries_append:
  "patchEntries sv cl isAffected opts res cons (xs @ ys) result =
     (case patchEntries sv cl isAffected opts res cons xs result of
        Panic \<Rightarrow> Panic
      | Err err \<Rightarrow> Err err
      | Ok mid \<Rightarrow> patchEntries sv cl isAffected opts res cons ys mid)"
  by (induction xs arbitrary: result) (auto split: result.splits)

lemma scanVersions_Err: "scanVersions satifyFn vers = Err e \<Longrightarrow> e = ErrInPlaceImpossible"
  by (induction vers) (auto split: if_splits option.splits bool.splits)

lemma findFixedVersion_Err:
  "findFixedVersion sv cl pk satifyFn = Err e \<Longrightarrow> e = ErrInPlaceImpossible \<or> Versions cl pk = Inl e"
  by (auto simp: findFixedVersion_def split: sum.splits dest: scanVersions_Err)

lemma patchVulns_Err:
  "patchVulns sv cl isAffected opts res cons vk vulnList result = Err e \<Longrightarrow>
   e \<noteq> ErrInPlaceImpossible \<and> Versions cl (PackageKey vk) = Inl e"
proof (induction vulnList arbitrary: result)
  case Nil
  then show ?case by simp
next
  case (Cons vuln vulnList)
  show ?case
  proof (cases "findFixedVersion sv cl (PackageKey vk) (satisfy sv cl isAffected opts res cons vk vuln)")
    case Panic
    with Cons show ?thesis by (auto split: if_splits)
  next
    case (Err err)
    with Cons findFixedVersion_Err [OF Err] show ?thesis by (auto split: if_splits)
  next
    case (Ok newVK)
    with Cons show ?thesis by (auto split: if_splits)
  qed
qed

lemma patchEntries_Err:
  "patchEntries sv cl isAffected opts res cons entries result = Err e \<Longrightarrow>
   e \<noteq> ErrInPlaceImpossible \<and> (\<exists>(vk, vulnList)\<in>set entries. Versions cl (PackageKey vk) = Inl e)"
proof (induction entries arbitrary: result)
  case Nil
  then show ?case by simp
next
  case (Cons entry entries)
  obtain vk vulnList where entry: "entry = (vk, vulnList)" by (cases entry)
  show ?case
  proof (cases "patchVulns sv cl isAffected opts res cons vk vulnList result")
    case Panic
    with Cons.prems entry show ?thesis by simp
  next
    case (Err err)
    with Cons.prems entry have "err = e" by simp
    with patchVulns_Err [OF Err] entry show ?thesis by auto
  next
    case (Ok mid)
    with Cons.prems entry have "patchEntries sv cl isAffected opts res cons entries mid = Err e"
      by simp
    from Cons.IH [OF this] show ?thesis by auto
  qed
qed

lemma index_not_Err: "index xs i \<noteq> Err e"
  by (simp add: index_def)

lemma EndDependency_not_Err: "EndDependency c \<noteq> Err e"
  by (auto simp: EndDependency_def index_def split: list.splits)

lemma chainRequirements_not_Err: "chainRequirements cs reqVers \<noteq> Err e"
proof (induction cs arbitrary: reqVers)
  case Nil
  then show ?case by simp
next
  case (Cons c cs)
  then show ?case
    using EndDependency_not_Err [of c]
    by (cases "EndDependency c") (auto split: prod.splits)
qed

lemma vulnRequirements_not_Err: "vulnRequirements vulns reqVers \<noteq> Err e"
proof (induction vulns arbitrary: reqVers)
  case Nil
  then show ?case by simp
next
  case (Cons v vulns)
  then show ?case
    using chainRequirements_not_Err [of "ProblemChains v" reqVers]
    by (cases "chainRequirements (ProblemChains v) reqVers") auto
qed

lemma dependentConstraints_not_Err: "dependentConstraints sv ord entries m \<noteq> Err e"
proof (induction entries arbitrary: m)
  case Nil
  then show ?case by simp
next
  case (Cons entry entries)
  obtain vk vulns where entry: "entry = (vk, vulns)" by (cases entry)
  show ?case
    using vulnRequirements_not_Err [of vulns "[]"] Cons.IH
    by (auto simp: entry split: result.splits)
qed

lemma traverse_not_Err: "traverse g toProcess found \<noteq> Err e"
  by (induction g toProcess found rule: traverse.induct) auto

lemma computeEach_not_Err: "computeEach g nodes \<noteq> Err e"
  by (induction nodes) (auto simp: traverse_not_Err split: result.splits)

lemma directDependencies_not_Err: "directDependencies graph nodeVulns es deps \<noteq> Err e"
  by (induction es arbitrary: deps) (auto simp: index_def split: result.splits)

lemma aggregate_not_Err: "aggregate graph nodeVulns pairs result \<noteq> Err e"
proof (induction pairs arbitrary: result)
  case Nil
  then show ?case by simp
next
  case (Cons pair pairs)
  obtain nID found where "pair = (nID, found)" by (cases pair)
  with Cons.IH show ?case
    by (auto simp: index_def Let_def)
qed

lemma inPlaceVulnsNodes_Err:
  "inPlaceVulnsNodes cl graph = Err e \<Longrightarrow> FindVulns cl graph = Inl e"
  by (auto simp: inPlaceVulnsNodes_def ComputeChains_def Let_def directDependencies_not_Err
        computeEach_not_Err aggregate_not_Err split: sum.splits result.splits)

lemma inPlaceVulnsNodes_Ok:
  "inPlaceVulnsNodes cl graph = Ok res \<Longrightarrow> \<exists>nodeVulns. FindVulns cl graph = Inr nodeVulns"
  by (auto simp: inPlaceVulnsNodes_def split: sum.splits)

lemma ComputeInPlacePatches_Err:
  assumes "ComputeInPlacePatches sv ord cl isAffected graph opts = Err e"
  shows "FindVulns cl graph = Inl e \<or> (e \<noteq> ErrInPlaceImpossible \<and> (\<exists>pk. Versions cl pk = Inl e))"
proof (cases "inPlaceVulnsNodes cl graph")
  case Panic
  with assms show ?thesis by (simp add: ComputeInPlacePatches_def)
next
  case (Err err)
  with assms have "err = e" by (simp add: ComputeInPlacePatches_def)
  with inPlaceVulnsNodes_Err Err show ?thesis by blast
next
  case (Ok res)
  show ?thesis
  proof (cases "dependentConstraints sv ord (rangeVkVulns ord (vkVulns res)) Map.empty")
    case Panic
    with assms Ok show ?thesis by (simp add: ComputeInPlacePatches_def)
  next
    case (Err err)
    with dependentConstraints_not_Err show ?thesis by blast
  next
    case cons: (Ok cons)
    with assms Ok have "patchEntries sv cl isAffected opts res cons (rangeVkVulns ord (vkVulns res))
                   \<lparr>Patches = [], Unfixable = []\<rparr> = Err e"
      by (simp add: ComputeInPlacePatches_def split: result.splits)
    from patchEntries_Err [OF this] show ?thesis by auto
  qed
qed

lemma nodesSatisfied_Err_not_True:
  assumes "dependenciesSatisfied sv cl newVK (nodeDependencies res nID) = Err e"
  shows "nodesSatisfied sv cl res newVK (pre @ nID # post) \<noteq> Some True"
  using assms by (induction pre) (auto split: result.splits)

lemma nodesSatisfied_Err_False:
  assumes "dependenciesSatisfied sv cl newVK (nodeDependencies res nID) = Err e"
    and "\<forall>n\<in>set pre. dependenciesSatisfied sv cl newVK (nodeDependencies res n) \<noteq> Panic"
  shows "nodesSatisfied sv cl res newVK (pre @ nID # post) = Some False"
  using assms by (induction pre) (auto split: result.splits)

lemma satisfy_not_True:
  assumes "nodesSatisfied sv cl res newVK (vkNodes res vk) \<noteq> Some True"
  shows "satisfy sv cl isAffected opts res cons vk vuln newVK \<noteq> Some True"
  using assms by (auto simp: satisfy_def split: sum.splits option.splits if_splits)

lemma satisfy_False:
  assumes "nodesSatisfied sv cl res newVK (vkNodes res vk) = Some False"
  shows "satisfy sv cl isAffected opts res cons vk vuln newVK = Some False"
  using assms by (simp add: satisfy_def split: sum.splits)

lemma dependenciesSatisfied_fetch:
  assumes "Requirements cl newVK = Inl e"
  shows "dependenciesSatisfied sv cl newVK children = Err e"
  using assms by (simp add: dependenciesSatisfied_def)

lemma scanVersions_rejected:
  assumes "satifyFn vk = Some False"
  shows "scanVersions satifyFn (vk # vers) = scanVersions satifyFn vers"
  using assms by simp

text \<open>
  Claim C1, as stated, fails. With a client whose requirements fetch fails for every
  candidate version, \<open>dependenciesSatisfied\<close> returns the error of the fetch, yet
  \<open>ComputeInPlacePatches\<close> returns no error: every candidate is rejected and the
  three vulnerabilities end in \<open>Unfixable\<close>.
\<close>

theorem collaborator_errors_counterexample:
  "Requirements clientNoRequirements (ver ''C'' ''1.0.1'')
     = Inl (ErrCollaborator ''requirements unavailable'')
   \<and> dependenciesSatisfied toySemver clientNoRequirements (ver ''C'' ''1.0.1'') []
     = Err (ErrCollaborator ''requirements unavailable'')
   \<and> returned (ComputeInPlacePatches toySemver insertionOrder clientNoRequirements isAff graphBC optsAll)
     = Some (\<lparr>Patches = [],
              Unfixable = [vulnOn vulnC chainC, vulnOn vulnB1 chainB, vulnOn vulnB2 chainB]\<rparr>, None)"
  by code_simp

text \<open>
  Claim C1, amended. Suppose the aggregation and the constraint precomputation return,
  and the search reaches a vulnerability \<open>vuln\<close> of version key \<open>vk\<close> that passes the
  filter and whose package is not avoided (the entries \<open>before\<close> and the
  vulnerabilities \<open>earlier\<close> having been processed without abort). Then:
  \<^item> if the version listing for the package fails with an error other than the
    impossible-fix error, \<open>ComputeInPlacePatches\<close> returns that error with an empty
    \<open>InPlaceResult\<close>, whatever had been computed before;
  \<^item> if the requirements fetch fails for a candidate version \<open>newVK\<close> and the version
    key has a node, the predicate answers false for that candidate and the scan of
    \<open>findFixedVersion\<close> goes on with the versions below it;
  \<^item> if \<open>dependenciesSatisfied\<close> returns an error, of whatever origin, at any node of
    the version key, the predicate does not accept the candidate; and unless the call
    panics at a node visited before that one, the predicate answers false and the scan
    goes on with the versions below the candidate;
  \<^item> an impossible-fix outcome appends the vulnerability to \<open>Unfixable\<close> and the loop
    goes on with the next vulnerability;
  \<^item> an error returned by \<open>ComputeInPlacePatches\<close> is never the impossible-fix error
    and is the error of some version listing.
\<close>

theorem collaborator_errors:
  assumes agg: "inPlaceVulnsNodes cl graph = Ok res"
    and cons: "dependentConstraints sv ord (rangeVkVulns ord (vkVulns res)) Map.empty = Ok cons"
    and order: "rangeVkVulns ord (vkVulns res) = before @ (vk, earlier @ vuln # later) # after"
    and reach: "patchEntries sv cl isAffected opts res cons before \<lparr>Patches = [], Unfixable = []\<rparr> = Ok r1"
               "patchVulns sv cl isAffected opts res cons vk earlier r1 = Ok r2"
    and match: "MatchVuln opts vuln" "Name (PackageKey vk) \<notin> set (AvoidPkgs opts)"
  shows "(Versions cl (PackageKey vk) = Inl e \<and> e \<noteq> ErrInPlaceImpossible \<longrightarrow>
            returned (ComputeInPlacePatches sv ord cl isAffected graph opts)
              = Some (\<lparr>Patches = [], Unfixable = []\<rparr>, Some e))
       \<and> (Requirements cl newVK = Inl e' \<and> vkNodes res vk \<noteq> [] \<longrightarrow>
            satisfy sv cl isAffected opts res cons vk vuln newVK = Some False
            \<and> scanVersions (satisfy sv cl isAffected opts res cons vk vuln) (newVK # lower)
                = scanVersions (satisfy sv cl isAffected opts res cons vk vuln) lower)
       \<and> (vkNodes res vk = pre @ nID # post
            \<and> dependenciesSatisfied sv cl newVK (nodeDependencies res nID) = Err e' \<longrightarrow>
            satisfy sv cl isAffected opts res cons vk vuln newVK \<noteq> Some True
            \<and> ((\<forall>n\<in>set pre. dependenciesSatisfied sv cl newVK (nodeDependencies res n) \<noteq> Panic) \<longrightarrow>
                 satisfy sv cl isAffected opts res cons vk vuln newVK = Some False
                 \<and> scanVersions (satisfy sv cl isAffected opts res cons vk vuln) (newVK # lower)
                     = scanVersions (satisfy sv cl isAffected opts res cons vk vuln) lower))
       \<and> (findFixedVersion sv cl (PackageKey vk) (satisfy sv cl isAffected opts res cons vk vuln)
              = Err ErrInPlaceImpossible \<longrightarrow>
            patchVulns sv cl isAffected opts res cons vk (vuln # later) r2
              = patchVulns sv cl isAffected opts res cons vk later
                  (r2\<lparr>Unfixable := Unfixable r2 @ [vuln]\<rparr>))
       \<and> (ComputeInPlacePatches sv ord cl isAffected graph opts = Err e'' \<longrightarrow>
            e'' \<noteq> ErrInPlaceImpossible \<and> (\<exists>pk. Versions cl pk = Inl e''))"
proof -
  let ?satisfy = "satisfy sv cl isAffected opts res cons vk vuln"
  have listing: "returned (ComputeInPlacePatches sv ord cl isAffected graph opts)
              = Some (\<lparr>Patches = [], Unfixable = []\<rparr>, Some e)"
    if failed: "Versions cl (PackageKey vk) = Inl e \<and> e \<noteq> ErrInPlaceImpossible"
  proof -
    from failed have "findFixedVersion sv cl (PackageKey vk) ?satisfy = Err e"
      by (simp add: findFixedVersion_def)
    with failed match have "patchVulns sv cl isAffected opts res cons vk (vuln # later) r2 = Err e"
      by simp
    with reach(2) have "patchVulns sv cl isAffected opts res cons vk (earlier @ vuln # later) r1 = Err e"
      by (simp add: patchVulns_append)
    with reach(1) have "patchEntries sv cl isAffected opts res cons (rangeVkVulns ord (vkVulns res))
                          \<lparr>Patches = [], Unfixable = []\<rparr> = Err e"
      by (simp add: order patchEntries_append)
    with agg cons have "ComputeInPlacePatches sv ord cl isAffected graph opts = Err e"
      by (simp add: ComputeInPlacePatches_def)
    then show ?thesis
      by (simp add: returned_def)
  qed
  have fetch: "?satisfy newVK = Some False
        \<and> scanVersions ?satisfy (newVK # lower) = scanVersions ?satisfy lower"
    if failed: "Requirements cl newVK = Inl e' \<and> vkNodes res vk \<noteq> []"
  proof -
    from failed obtain nID' nIDs where nodes: "vkNodes res vk = [] @ nID' # nIDs"
      by (cases "vkNodes res vk") auto
    from failed have "dependenciesSatisfied sv cl newVK (nodeDependencies res nID') = Err e'"
      by (simp add: dependenciesSatisfied_fetch)
    then have "nodesSatisfied sv cl res newVK ([] @ nID' # nIDs) = Some False"
      by (rule nodesSatisfied_Err_False) simp
    with nodes have "?satisfy newVK = Some False"
      by (simp add: satisfy_False)
    then show ?thesis
      by (simp add: scanVersions_rejected)
  qed
  have swallow: "?satisfy newVK \<noteq> Some True
        \<and> ((\<forall>n\<in>set pre. dependenciesSatisfied sv cl newVK (nodeDependencies res n) \<noteq> Panic) \<longrightarrow>
             ?satisfy newVK = Some False
             \<and> scanVersions ?satisfy (newVK # lower) = scanVersions ?satisfy lower)"
    if failed: "vkNodes res vk = pre @ nID # post
        \<and> dependenciesSatisfied sv cl newVK (nodeDependencies res nID) = Err e'"
  proof (intro conjI impI)
    from failed have err: "dependenciesSatisfied sv cl newVK (nodeDependencies res nID) = Err e'"
      and nodes: "vkNodes res vk = pre @ nID # post"
      by simp_all
    from nodesSatisfied_Err_not_True [OF err, of pre post] nodes
    show "?satisfy newVK \<noteq> Some True"
      by (simp add: satisfy_not_True)
    assume "\<forall>n\<in>set pre. dependenciesSatisfied sv cl newVK (nodeDependencies res n) \<noteq> Panic"
    from nodesSatisfied_Err_False [OF err this, of post] nodes
    show rejected: "?satisfy newVK = Some False"
      by (simp add: satisfy_False)
    then show "scanVersions ?satisfy (newVK # lower) = scanVersions ?satisfy lower"
      by (simp add: scanVersions_rejected)
  qed
  have impossible: "patchVulns sv cl isAffected opts res cons vk (vuln # later) r2
              = patchVulns sv cl isAffected opts res cons vk later
                  (r2\<lparr>Unfixable := Unfixable r2 @ [vuln]\<rparr>)"
    if "findFixedVersion sv cl (PackageKey vk) ?satisfy = Err ErrInPlaceImpossible"
    using that match by simp
  have origin: "e'' \<noteq> ErrInPlaceImpossible \<and> (\<exists>pk. Versions cl pk = Inl e'')"
    if err: "ComputeInPlacePatches sv ord cl isAffected graph opts = Err e''"
    using ComputeInPlacePatches_Err [OF err] inPlaceVulnsNodes_Ok [OF agg] by auto
  from listing fetch swallow impossible origin show ?thesis
    by blast
qed

lemma run_noVersions:
  "(case inPlaceVulnsNodes clientNoVersions graphBC of
      Ok res \<Rightarrow>
        (case dependentConstraints toySemver insertionOrder
                (rangeVkVulns insertionOrder (vkVulns res)) Map.empty of
           Ok cons \<Rightarrow>
             Some (rangeVkVulns insertionOrder (vkVulns res),
                   vkNodes res (ver ''B'' ''1.0.0''), nodeDependencies res 3,
                   patchEntries toySemver clientNoVersions isAff optsAll res cons
                     [(ver ''C'' ''1.0.0'', [vulnOn vulnC chainC])] \<lparr>Patches = [], Unfixable = []\<rparr>)
         | _ \<Rightarrow> None)
    | _ \<Rightarrow> None)
   = Some ([(ver ''C'' ''1.0.0'', [vulnOn vulnC chainC]),
            (ver ''B'' ''1.0.0'', [vulnOn vulnB1 chainB, vulnOn vulnB2 chainB])],
           [3], [], Ok \<lparr>Patches = [patchC], Unfixable = []\<rparr>)"
  by code_simp

text \<open>
  An instance: C is patched first; then the version listing fails for B and the call
  returns that error with an empty result, the patch of C being discarded. The
  requirements fetch fails for B as well: \<open>dependenciesSatisfied\<close> returns its error
  at node 3, the only node of B 1.0.0, the predicate answers false for the candidate
  1.1.0, and the scan goes on with 1.0.1.
\<close>

theorem collaborator_errors_witness:
  "returned (ComputeInPlacePatches toySemver insertionOrder clientNoVersions isAff graphBC optsAll)
     = Some (\<lparr>Patches = [], Unfixable = []\<rparr>, Some (ErrCollaborator ''versions unavailable''))
   \<and> Requirements clientNoVersions (ver ''B'' ''1.1.0'')
     = Inl (ErrCollaborator ''requirements unavailable'')
   \<and> (\<exists>res cons. inPlaceVulnsNodes clientNoVersions graphBC = Ok res
         \<and> dependentConstraints toySemver insertionOrder
              (rangeVkVulns insertionOrder (vkVulns res)) Map.empty = Ok cons
         \<and> patchEntries toySemver clientNoVersions isAff optsAll res cons
              [(ver ''C'' ''1.0.0'', [vulnOn vulnC chainC])] \<lparr>Patches = [], Unfixable = []\<rparr>
            = Ok \<lparr>Patches = [patchC], Unfixable = []\<rparr>
         \<and> vkNodes res (ver ''B'' ''1.0.0'') = [3]
         \<and> dependenciesSatisfied toySemver clientNoVersions (ver ''B'' ''1.1.0'') (nodeDependencies res 3)
            = Err (ErrCollaborator ''requirements unavailable'')
         \<and> satisfy toySemver clientNoVersions isAff optsAll res cons (ver ''B'' ''1.0.0'')
              (vulnOn vulnB1 chainB) (ver ''B'' ''1.1.0'') = Some False
         \<and> scanVersions (satisfy toySemver clientNoVersions isAff optsAll res cons (ver ''B'' ''1.0.0'')
              (vulnOn vulnB1 chainB)) [ver ''B'' ''1.1.0'', ver ''B'' ''1.0.1'']
            = scanVersions (satisfy toySemver clientNoVersions isAff optsAll res cons (ver ''B'' ''1.0.0'')
              (vulnOn vulnB1 chainB)) [ver ''B'' ''1.0.1''])"
proof -
  let ?cl = clientNoVersions
  let ?vC = "vulnOn vulnC chainC" and ?vB1 = "vulnOn vulnB1 chainB" and ?vB2 = "vulnOn vulnB2 chainB"
  let ?empty = "\<lparr>Patches = [], Unfixable = []\<rparr>"
  obtain res where res: "inPlaceVulnsNodes ?cl graphBC = Ok res"
    using run_noVersions by (cases "inPlaceVulnsNodes ?cl graphBC") simp_all
  let ?entries = "rangeVkVulns insertionOrder (vkVulns res)"
  obtain cons where cons: "dependentConstraints toySemver insertionOrder ?entries Map.empty = Ok cons"
    using run_noVersions unfolding res
    by (cases "dependentConstraints toySemver insertionOrder ?entries Map.empty") simp_all
  let ?satisfy = "satisfy toySemver ?cl isAff optsAll res cons (ver ''B'' ''1.0.0'') ?vB1"
  have "Some (?entries, vkNodes res (ver ''B'' ''1.0.0''), nodeDependencies res 3,
              patchEntries toySemver ?cl isAff optsAll res cons [(ver ''C'' ''1.0.0'', [?vC])] ?empty)
        = Some ([(ver ''C'' ''1.0.0'', [?vC]), (ver ''B'' ''1.0.0'', [?vB1, ?vB2])],
                [3], [], Ok \<lparr>Patches = [patchC], Unfixable = []\<rparr>)"
    using run_noVersions unfolding res result.case cons .
  then have facts:
    "?entries = [(ver ''C'' ''1.0.0'', [?vC]), (ver ''B'' ''1.0.0'', [?vB1, ?vB2])]
     \<and> vkNodes res (ver ''B'' ''1.0.0'') = [3]
     \<and> nodeDependencies res 3 = []
     \<and> patchEntries toySemver ?cl isAff optsAll res cons [(ver ''C'' ''1.0.0'', [?vC])] ?empty
        = Ok \<lparr>Patches = [patchC], Unfixable = []\<rparr>"
    by (simp only: option.inject prod.inject)
  from facts have order: "?entries = [(ver ''C'' ''1.0.0'', [?vC])]
      @ (ver ''B'' ''1.0.0'', [] @ ?vB1 # [?vB2]) # []"
    by simp
  from facts have nodes: "vkNodes res (ver ''B'' ''1.0.0'') = [3]"
    by blast
  from facts have deps: "nodeDependencies res 3 = []"
    by blast
  from facts have reach1:
    "patchEntries toySemver ?cl isAff optsAll res cons [(ver ''C'' ''1.0.0'', [?vC])] ?empty
       = Ok \<lparr>Patches = [patchC], Unfixable = []\<rparr>"
    by blast
  have reach2: "patchVulns toySemver ?cl isAff optsAll res cons (ver ''B'' ''1.0.0'') []
                  \<lparr>Patches = [patchC], Unfixable = []\<rparr> = Ok \<lparr>Patches = [patchC], Unfixable = []\<rparr>"
    by simp
  have match: "MatchVuln optsAll ?vB1"
    and avoid: "Name (PackageKey (ver ''B'' ''1.0.0'')) \<notin> set (AvoidPkgs optsAll)"
    by (simp_all add: optsAll_def)
  have listing: "Versions ?cl (PackageKey (ver ''B'' ''1.0.0''))
                   = Inl (ErrCollaborator ''versions unavailable'')
                 \<and> ErrCollaborator ''versions unavailable'' \<noteq> ErrInPlaceImpossible"
    by (simp add: clientNoVersions_def ver_def pkg_def)
  have fetch: "Requirements ?cl (ver ''B'' ''1.1.0'') = Inl (ErrCollaborator ''requirements unavailable'')"
    by (simp add: clientNoVersions_def ver_def pkg_def)
  have failed: "dependenciesSatisfied toySemver ?cl (ver ''B'' ''1.1.0'') (nodeDependencies res 3)
            = Err (ErrCollaborator ''requirements unavailable'')"
    by (simp add: deps dependenciesSatisfied_def clientNoVersions_def ver_def pkg_def)
  from nodes have split: "vkNodes res (ver ''B'' ''1.0.0'') = [] @ 3 # []"
    by simp
  have before: "\<forall>n\<in>set []. dependenciesSatisfied toySemver ?cl (ver ''B'' ''1.1.0'')
                  (nodeDependencies res n) \<noteq> Panic"
    by simp
  note all = collaborator_errors [OF res cons order reach1 reach2 match avoid,
      where e = "ErrCollaborator ''versions unavailable''" and nID = 3 and pre = "[]" and post = "[]"
        and newVK = "ver ''B'' ''1.1.0''" and e' = "ErrCollaborator ''requirements unavailable''"
        and lower = "[ver ''B'' ''1.0.1'']"]
  from all listing have one:
    "returned (ComputeInPlacePatches toySemver insertionOrder ?cl isAff graphBC optsAll)
       = Some (?empty, Some (ErrCollaborator ''versions unavailable''))"
    by blast
  from all split failed before have two: "?satisfy (ver ''B'' ''1.1.0'') = Some False
      \<and> scanVersions ?satisfy [ver ''B'' ''1.1.0'', ver ''B'' ''1.0.1'']
        = scanVersions ?satisfy [ver ''B'' ''1.0.1'']"
    by blast
  from one two fetch failed nodes res cons reach1 show ?thesis
    by blast
qed

section \<open>Chains through the root\<close>

lemma linked_snoc:
  "es \<noteq> [] \<Longrightarrow> linked (es @ [p]) = (linked es \<and> To p = From (last es) \<and> From (last es) \<noteq> 0)"
  by (induction es rule: linked.induct) auto

lemma linked_targets: "linked (e # es) \<Longrightarrow> 0 \<notin> set (map To es)"
  by (induction es arbitrary: e) auto

lemma chainTo_initial:
  assumes "c \<in> set (map (\<lambda>pEdge. \<lparr>Graph = g, Edges = [pEdge]\<rparr>) (parentEdges g t))"
  shows "chainTo g t c"
  using assms by (auto simp: chainTo_def parentEdges_filter)

lemma chainTo_extend:
  assumes "chainTo g t chain" and "From (last (DependencyChain.Edges chain)) \<noteq> 0"
    and "c \<in> set (extendChain g chain (last (DependencyChain.Edges chain)))"
  shows "chainTo g t c"
proof -
  let ?es = "DependencyChain.Edges chain"
  from assms(3) have "\<exists>p. p \<in> set (Graph.Edges g) \<and> To p = From (last ?es) \<and> From p \<noteq> To p
      \<and> To p \<notin> To ` set ?es \<and> DependencyChain.Edges c = ?es @ [p]"
    by (auto simp: extendChain_def parentEdges_filter list_ex_iff)
  then obtain p where p: "p \<in> set (Graph.Edges g)" "To p = From (last ?es)" "From p \<noteq> To p"
      "To p \<notin> To ` set ?es" and c: "DependencyChain.Edges c = ?es @ [p]"
    by blast
  from assms(1) have ne: "?es \<noteq> []" by (simp add: chainTo_def)
  then have hd: "hd (?es @ [p]) = hd ?es" by simp
  from assms(1,2) p ne show ?thesis
    unfolding chainTo_def c by (simp add: linked_snoc hd)
qed

lemma traverse_chains:
  assumes "\<forall>c\<in>set toProcess. chainTo g t c"
    and "\<forall>c\<in>set found. chainTo g t c \<and> From (last (DependencyChain.Edges c)) = 0"
  shows "\<exists>out. traverse g toProcess found = Ok out
           \<and> (\<forall>c\<in>set out. chainTo g t c \<and> From (last (DependencyChain.Edges c)) = 0)"
  using assms
proof (induction g toProcess found rule: traverse.induct)
  case (1 g found)
  then show ?case by simp
next
  case (2 g chain toProcess found)
  from "2.prems"(1) have chain: "chainTo g t chain" by simp
  then have ne: "DependencyChain.Edges chain \<noteq> []" by (simp add: chainTo_def)
  show ?case
  proof (cases "From (last (DependencyChain.Edges chain)) = 0")
    case True
    have "\<exists>out. traverse g toProcess (found @ [chain]) = Ok out
           \<and> (\<forall>c\<in>set out. chainTo g t c \<and> From (last (DependencyChain.Edges c)) = 0)"
      using "2.prems" chain True by (intro "2.IH"(1) [OF ne True]) auto
    with ne True show ?thesis by simp
  next
    case False
    have "\<forall>c\<in>set (toProcess @ extendChain g chain (last (DependencyChain.Edges chain))). chainTo g t c"
      using "2.prems"(1) chainTo_extend [OF chain False] by auto
    then have "\<exists>out. traverse g (toProcess @ extendChain g chain (last (DependencyChain.Edges chain))) found = Ok out
           \<and> (\<forall>c\<in>set out. chainTo g t c \<and> From (last (DependencyChain.Edges c)) = 0)"
      using "2.prems"(2) by (intro "2.IH"(2) [OF ne False]) auto
    with ne False show ?thesis by simp
  qed
qed

lemma computeEach_chains:
  "\<exists>allChains. computeEach g nodes = Ok allChains
     \<and> list_all2 (\<lambda>t found. \<forall>c\<in>set found. chainTo g t c \<and> From (last (DependencyChain.Edges c)) = 0)
         nodes allChains"
proof (induction nodes)
  case Nil
  then show ?case by simp
next
  case (Cons t nodes)
  let ?init = "map (\<lambda>pEdge. \<lparr>Graph = g, Edges = [pEdge]\<rparr>) (parentEdges g t)"
  have "\<forall>c\<in>set ?init. chainTo g t c"
    using chainTo_initial by blast
  from traverse_chains [OF this, of "[]"] obtain out where
    out: "traverse g ?init [] = Ok out"
      "\<forall>c\<in>set out. chainTo g t c \<and> From (last (DependencyChain.Edges c)) = 0"
    by auto
  from Cons.IH obtain rest where
    rest: "computeEach g nodes = Ok rest"
      "list_all2 (\<lambda>t found. \<forall>c\<in>set found. chainTo g t c \<and> From (last (DependencyChain.Edges c)) = 0)
         nodes rest"
    by blast
  from out rest show ?case by simp
qed

lemma chainNodes_distinct:
  assumes "chainTo g t c" and "From (last (DependencyChain.Edges c)) = 0" and "t \<noteq> 0"
  shows "distinct (chainNodes c)"
proof -
  from assms(1) obtain e es where es: "DependencyChain.Edges c = e # es"
    by (cases "DependencyChain.Edges c") (auto simp: chainTo_def)
  from assms(1) es have "To e = t" "linked (e # es)" "distinct (map To (e # es))"
    by (auto simp: chainTo_def)
  with linked_targets [of e es] assms(3) have "0 \<notin> set (map To (e # es))"
    by auto
  with \<open>distinct (map To (e # es))\<close> assms(2) show ?thesis
    by (simp add: chainNodes_def es del: last.simps)
qed

text \<open>
  \<open>ComputeChains\<close> always returns, with one list of chains per requested node. In
  every chain the targets of the edges are pairwise different and no edge is a
  self-loop; and a chain of a node other than the root visits no node twice.
\<close>

lemma ComputeChains_returns:
  "\<exists>allChains. ComputeChains g nodes = Ok allChains \<and> length allChains = length nodes"
  using computeEach_chains [of g nodes] by (auto simp: ComputeChains_def dest: list_all2_lengthD)

lemma ComputeChains_acyclic_off_root:
  assumes "ComputeChains g nodes = Ok allChains" and "i < length nodes" and "c \<in> set (allChains ! i)"
  shows "distinct (map To (DependencyChain.Edges c))
       \<and> (\<forall>e\<in>set (DependencyChain.Edges c). e \<in> set (Graph.Edges g) \<and> From e \<noteq> To e)
       \<and> (nodes ! i \<noteq> 0 \<longrightarrow> distinct (chainNodes c))"
proof -
  from computeEach_chains [of g nodes] assms(1) have
    "list_all2 (\<lambda>t found. \<forall>c\<in>set found. chainTo g t c \<and> From (last (DependencyChain.Edges c)) = 0)
         nodes allChains"
    by (auto simp: ComputeChains_def)
  from list_all2_nthD [OF this assms(2)] assms(3) have
    c: "chainTo g (nodes ! i) c" "From (last (DependencyChain.Edges c)) = 0"
    by auto
  from c(1) chainNodes_distinct [OF c] show ?thesis
    by (auto simp: chainTo_def)
qed

text \<open>
  Claim C7 at a failing input. In the graph where A depends on the root and the root on
  A, the chains computed for the root itself consist of one chain, root \<open>\<leftarrow>\<close> A
  \<open>\<leftarrow>\<close> root, which visits node 0 twice: the cycle guard compares the targets of the
  chain's edges with the target of the parent edge (the node just reached), not with its
  source, so a chain that closes a cycle at the root is emitted. For every other
  target the chains are acyclic (\<open>ComputeChains_acyclic_off_root\<close>).
\<close>

theorem chain_revisits_root:
  "ComputeChains graphCycle [0] = Ok [[chainCycle]]
   \<and> chainNodes chainCycle = [0, 1, 0]
   \<and> \<not> distinct (chainNodes chainCycle)"
  by code_simp

section \<open>Optional requirements\<close>

text \<open>
  Claim C8 at a failing input. The candidate declares one optional requirement, on C,
  that is not among the regular ones, and the node has no child C:
  \<open>IndexFunc\<close> answers \<open>-1\<close> and \<open>Delete deps (-1) 0\<close> panics, in
  \<open>dependenciesSatisfied\<close> and so in \<open>ComputeInPlacePatches\<close>.
\<close>

theorem dependenciesSatisfied_panics:
  "Requirements clientOptional (ver ''B'' ''1.1.0'') = Inr [optionalC]
   \<and> regularDeps [optionalC] = []
   \<and> optionalDeps [optionalC] = [VersionKey optionalC]
   \<and> IndexFunc (regularDeps [optionalC]) (sameName (VersionKey optionalC)) = - 1
   \<and> dependenciesSatisfied toySemver clientOptional (ver ''B'' ''1.1.0'') [] = Panic
   \<and> ComputeInPlacePatches toySemver insertionOrder clientOptional isAff graphA optsAll = Panic"
  by code_simp

section \<open>A vulnerable node without chains\<close>

text \<open>
  Claim C9 at a failing input. The root alone, reported vulnerable: no chain leads to
  it, its set of requirement strings is empty, and \<open>buildConstraintSet\<close> panics on
  \<open>requiredVers[0]\<close>, and so does \<open>ComputeInPlacePatches\<close>.
\<close>

theorem buildConstraintSet_panics:
  "ComputeChains graphRoot [0] = Ok [[]]
   \<and> (case inPlaceVulnsNodes clientRoot graphRoot of Ok res \<Rightarrow> vkVulns res | _ \<Rightarrow> [])
       = [(ver ''root'' ''1.0.0'', [\<lparr>Vulnerability = vulnB1, ProblemChains = [], DevOnly = False\<rparr>])]
   \<and> buildConstraintSet toySemver 1 [] = Panic
   \<and> ComputeInPlacePatches toySemver insertionOrder clientRoot isAff graphRoot optsAll = Panic"
  by code_simp

end
